theory Spec2Isabelle
  imports Main "HOL-Library.Word" "HOL-Library.Log_Nat"
begin

section \<open>Data model\<close>

text \<open>
  A JavaScript string is a sequence of UTF-16 code units and a \<^verbatim>\<open>Uint8Array\<close> a sequence
  of bytes. \<open>js\<close> writes an ASCII literal as a JavaScript string.
\<close>

type_synonym jschar = "16 word"
type_synonym jsstring = "jschar list"
type_synonym byte = "8 word"

definition js :: "string \<Rightarrow> jsstring" where
  "js s = map (\<lambda>c. of_nat (of_char c)) s"

text \<open>
  Every \<^verbatim>\<open>throw\<close> of the source is a value of \<open>error\<close>, one constructor per throw site.
  \<open>TypeError_undefined_length\<close> is the engine's own TypeError for reading \<^verbatim>\<open>.length\<close> of
  \<^verbatim>\<open>undefined\<close>.
\<close>

datatype error =
    AlphabetTooLong
  | Ambiguous jschar
  | NonZeroCarry
  | NonBaseCharacter nat
  | E_PKH_LENGTH nat
  | EitherButNotBoth
  | PublicVersionPrivateKey jsstring
  | PrivateVersionPubKeyHash jsstring
  | ChecksumMismatch jsstring jsstring
  | UnexpectedVersion jsstring
  | NotAsLongAsExpected nat
  | MustExistToEncode
  | InvalidPrivateKeyLength nat bool
  | InvalidPubKeyHashLength nat
  | TypeError_undefined_length

section \<open>BaseX: the radix codec\<close>

definition BASE58 :: jsstring where
  "BASE58 = js ''123456789ABCDEFGHJKLMNPQRSTUVWXYZabcdefghijkmnopqrstuvwxyz''"

record base_x =
  ALPHABET :: jsstring
  BASE_MAP :: "byte list"
  BASE :: nat
  LEADER :: jsstring

text \<open>\<^verbatim>\<open>s.charAt(i)\<close>: the one-unit string at \<open>i\<close>, the empty string out of range.\<close>

definition charAt :: "jsstring \<Rightarrow> nat \<Rightarrow> jsstring" where
  "charAt s i = (if i < length s then [s ! i] else [])"

text \<open>
  The second loop of \<^verbatim>\<open>createEncoder\<close>. \<^verbatim>\<open>BASE_MAP[xc]\<close> is \<^verbatim>\<open>undefined\<close> for a code unit
  beyond the table, and \<^verbatim>\<open>undefined !== 255\<close> throws as an occupied entry does.
\<close>

fun fill_BASE_MAP :: "jsstring \<Rightarrow> nat \<Rightarrow> byte list \<Rightarrow> error + byte list" where
  "fill_BASE_MAP [] i m = Inr m"
| "fill_BASE_MAP (x # xs) i m =
     (let xc = unat x in
      if xc < length m \<and> m ! xc = 255 then fill_BASE_MAP xs (i + 1) (m[xc := of_nat i])
      else Inl (Ambiguous x))"

definition createEncoder :: "jsstring \<Rightarrow> error + base_x" where
  "createEncoder A0 =
     (let A = (if A0 = [] then BASE58 else A0) in
      if length A \<ge> 255 then Inl AlphabetTooLong
      else case fill_BASE_MAP A 0 (replicate 256 255) of
             Inl e \<Rightarrow> Inl e
           | Inr m \<Rightarrow> Inr \<lparr>ALPHABET = A, BASE_MAP = m, BASE = length A, LEADER = charAt A 0\<rparr>)"

text \<open>
  \<^verbatim>\<open>FACTOR\<close> and \<^verbatim>\<open>iFACTOR\<close> are quotients of natural logarithms in double arithmetic, used
  only to size the digit arrays. The model takes the exact value of
  \<^verbatim>\<open>(n * iFACTOR + 1) >>> 0\<close>, that is \<open>\<lfloor>n * log 256 / log BASE\<rfloor> + 1\<close>, the number of
  base-\<open>BASE\<close> digits of \<open>256 ^ n\<close>, and likewise for \<^verbatim>\<open>FACTOR\<close>. With a one-symbol
  alphabet \<^verbatim>\<open>Math.log(BASE)\<close> is 0: \<^verbatim>\<open>iFACTOR\<close> is \<^verbatim>\<open>Infinity\<close>, whose products
  (\<^verbatim>\<open>Infinity\<close> or \<^verbatim>\<open>NaN\<close>) \<^verbatim>\<open>>>> 0\<close> turns into 0, and \<^verbatim>\<open>FACTOR\<close> is 0, which gives size 1;
  \<open>floorlog\<close> has these values there too.
\<close>

definition enc_size :: "nat \<Rightarrow> nat \<Rightarrow> nat" where
  "enc_size B n = floorlog B (256 ^ n)"

definition dec_size :: "nat \<Rightarrow> nat \<Rightarrow> nat" where
  "dec_size B n = floorlog 256 (B ^ n)"

text \<open>\<^verbatim>\<open>x >>> 0\<close> on a non-negative number: truncation to 32 bits.\<close>

definition u32 :: "nat \<Rightarrow> nat" where
  "u32 x = x mod 2 ^ 32"

text \<open>
  The inner \<^verbatim>\<open>for\<close> loop of \<^verbatim>\<open>encode\<close> (multiplier 256, divisor \<^verbatim>\<open>BASE\<close>) and of
  \<^verbatim>\<open>decodeUnsafe\<close> (multiplier \<^verbatim>\<open>BASE\<close>, divisor 256); the two are the same text up to these
  constants. The fourth argument is \<^verbatim>\<open>it1 + 1\<close>, so that \<^verbatim>\<open>it1 !== -1\<close> is the \<open>Suc\<close>
  pattern. The quotient \<^verbatim>\<open>carry / BASE\<close> is a double and \<^verbatim>\<open>>>> 0\<close> truncates it. The
  digit array is a \<^verbatim>\<open>Uint8Array\<close>: a store keeps the low 8 bits.
\<close>

fun carry_loop :: "nat \<Rightarrow> nat \<Rightarrow> nat \<Rightarrow> nat \<Rightarrow> nat \<Rightarrow> nat \<Rightarrow> byte list \<Rightarrow> nat \<times> nat \<times> byte list" where
  "carry_loop m d len 0 i carry b = (carry, i, b)"
| "carry_loop m d len (Suc it1) i carry b =
     (if carry \<noteq> 0 \<or> i < len then
        let carry1 = carry + u32 (m * unat (b ! it1));
            b' = b[it1 := of_nat (u32 (carry1 mod d))];
            carry2 = u32 (carry1 div d)
        in carry_loop m d len it1 (i + 1) carry2 b'
      else (carry, i, b))"

text \<open>The loop of \<^verbatim>\<open>encode\<close> over the bytes from \<^verbatim>\<open>pbegin\<close> to \<^verbatim>\<open>pend\<close>.\<close>

fun encode_loop :: "nat \<Rightarrow> nat \<Rightarrow> byte list \<Rightarrow> nat \<Rightarrow> byte list \<Rightarrow> error + (nat \<times> byte list)" where
  "encode_loop B sz [] len b58 = Inr (len, b58)"
| "encode_loop B sz (x # rest) len b58 =
     (case carry_loop 256 B len sz 0 (unat x) b58 of
        (carry, i, b58') \<Rightarrow>
          if carry \<noteq> 0 then Inl NonZeroCarry
          else encode_loop B sz rest i b58')"

text \<open>
  \<^verbatim>\<open>encode\<close>. The two skipping loops are \<open>takeWhile\<close> and \<open>dropWhile\<close>:
  \<open>zeroes\<close> counts the leading zero bytes, and \<^verbatim>\<open>it2\<close> moves from \<^verbatim>\<open>size - length\<close> over
  the zero digits.
\<close>

definition encode :: "base_x \<Rightarrow> byte list \<Rightarrow> error + jsstring" where
  "encode c source =
     (if length source = 0 then Inr []
      else
        let zeroes = length (takeWhile (\<lambda>x. x = 0) source);
            pbegin = zeroes;
            pend = length source;
            sz = enc_size (BASE c) (pend - pbegin);
            b58 = replicate sz 0
        in case encode_loop (BASE c) sz (drop pbegin source) 0 b58 of
             Inl e \<Rightarrow> Inl e
           | Inr (len, b58') \<Rightarrow>
               Inr (concat (replicate zeroes (LEADER c))
                    @ concat (map (\<lambda>d. charAt (ALPHABET c) (unat d))
                                (dropWhile (\<lambda>d. d = 0) (drop (sz - len) b58')))))"

text \<open>
  The loop of \<^verbatim>\<open>decodeUnsafe\<close> over the characters from \<^verbatim>\<open>psz\<close>. \<open>Inr None\<close> is the
  \<^verbatim>\<open>return;\<close> at an invalid character. For a code unit beyond the table
  \<^verbatim>\<open>BASE_MAP[...]\<close> is \<^verbatim>\<open>undefined\<close>, which is not \<^verbatim>\<open>=== 255\<close>: the \<^verbatim>\<open>for\<close> loop is entered
  (\<^verbatim>\<open>undefined !== 0\<close>) unless the array is empty, its first round makes \<^verbatim>\<open>carry\<close> \<^verbatim>\<open>NaN\<close>,
  stores \<^verbatim>\<open>NaN % 256 >>> 0 = 0\<close> and leaves \<^verbatim>\<open>carry = (NaN / 256) >>> 0 = 0\<close>, and the
  loop goes on from there.
\<close>

fun decode_loop :: "base_x \<Rightarrow> nat \<Rightarrow> jsstring \<Rightarrow> nat \<Rightarrow> byte list \<Rightarrow> error + (nat \<times> byte list) option" where
  "decode_loop c sz [] len b256 = Inr (Some (len, b256))"
| "decode_loop c sz (x # rest) len b256 =
     (if unat x < length (BASE_MAP c) then
        let carry = unat (BASE_MAP c ! unat x) in
        if carry = 255 then Inr None
        else case carry_loop (BASE c) 256 len sz 0 carry b256 of
               (carry', i, b256') \<Rightarrow>
                 if carry' \<noteq> 0 then Inl NonZeroCarry
                 else decode_loop c sz rest i b256'
      else if sz = 0 then Inl NonZeroCarry
      else case carry_loop (BASE c) 256 len (sz - 1) 1 0 (b256[sz - 1 := 0]) of
             (carry', i, b256') \<Rightarrow>
               if carry' \<noteq> 0 then Inl NonZeroCarry
               else decode_loop c sz rest i b256')"

definition decodeUnsafe :: "base_x \<Rightarrow> jsstring \<Rightarrow> error + byte list option" where
  "decodeUnsafe c source =
     (if length source = 0 then Inr (Some [])
      else
        let zeroes = length (takeWhile (\<lambda>x. [x] = LEADER c) source);
            psz = zeroes;
            sz = dec_size (BASE c) (length source - psz);
            b256 = replicate sz 0
        in case decode_loop c sz (drop psz source) 0 b256 of
             Inl e \<Rightarrow> Inl e
           | Inr None \<Rightarrow> Inr None
           | Inr (Some (len, b256')) \<Rightarrow>
               Inr (Some (replicate zeroes 0
                          @ dropWhile (\<lambda>d. d = 0) (drop (sz - len) b256'))))"

text \<open>\<^verbatim>\<open>decode\<close>: a returned array, empty or not, is truthy.\<close>

definition decode :: "base_x \<Rightarrow> jsstring \<Rightarrow> error + byte list" where
  "decode c string =
     (case decodeUnsafe c string of
        Inl e \<Rightarrow> Inl e
      | Inr None \<Rightarrow> Inl (NonBaseCharacter (BASE c))
      | Inr (Some buffer) \<Rightarrow> Inr buffer)"

section \<open>Hex strings and byte arrays\<close>

text \<open>
  \<^verbatim>\<open>parseInt(s, 16)\<close> as ECMAScript defines it: leading white space is dropped, then a
  sign, then a \<^verbatim>\<open>0x\<close> prefix; the longest prefix of hexadecimal digits is the number, and
  there being none gives \<^verbatim>\<open>NaN\<close> (\<open>None\<close>).
\<close>

definition is_StrWhiteSpaceChar :: "jschar \<Rightarrow> bool" where
  "is_StrWhiteSpaceChar c \<longleftrightarrow>
     c \<in> {0x9, 0xA, 0xB, 0xC, 0xD, 0x20, 0xA0, 0x1680, 0x2028, 0x2029, 0x202F, 0x205F,
          0x3000, 0xFEFF} \<or> (0x2000 \<le> c \<and> c \<le> 0x200A)"

definition hex_digit_value :: "jschar \<Rightarrow> nat option" where
  "hex_digit_value c =
     (if 0x30 \<le> c \<and> c \<le> 0x39 then Some (unat c - 0x30)
      else if 0x61 \<le> c \<and> c \<le> 0x66 then Some (unat c - 0x61 + 10)
      else if 0x41 \<le> c \<and> c \<le> 0x46 then Some (unat c - 0x41 + 10)
      else None)"

definition parseInt16 :: "jsstring \<Rightarrow> int option" where
  "parseInt16 inputString =
     (let S = dropWhile is_StrWhiteSpaceChar inputString;
          sign = (if S \<noteq> [] \<and> hd S = 0x2D then - 1 else 1 :: int);
          S1 = (if S \<noteq> [] \<and> (hd S = 0x2B \<or> hd S = 0x2D) then tl S else S);
          S2 = (if length S1 \<ge> 2 \<and> (take 2 S1 = js ''0x'' \<or> take 2 S1 = js ''0X'')
                then drop 2 S1 else S1);
          Z = takeWhile (\<lambda>c. hex_digit_value c \<noteq> None) S2
      in if Z = [] then None
         else Some (sign * int (foldl (\<lambda>a c. a * 16 + the (hex_digit_value c)) 0 Z)))"

text \<open>A store into a \<^verbatim>\<open>Uint8Array\<close>: \<^verbatim>\<open>NaN\<close> becomes 0, an integer is taken modulo 256.\<close>

definition ToUint8 :: "int option \<Rightarrow> byte" where
  "ToUint8 v = (case v of None \<Rightarrow> 0 | Some n \<Rightarrow> of_int n)"

text \<open>
  \<^verbatim>\<open>hexToUint8Array\<close>. The array has \<^verbatim>\<open>hex.length / 2\<close> entries, rounded down, so the
  store for the last character of a string of odd length falls outside and is dropped.
\<close>

fun hexToUint8Array :: "jsstring \<Rightarrow> byte list" where
  "hexToUint8Array (a # b # rest) = ToUint8 (parseInt16 [a, b]) # hexToUint8Array rest"
| "hexToUint8Array _ = []"

definition hex_char :: "nat \<Rightarrow> jschar" where
  "hex_char n = (if n < 10 then of_nat (0x30 + n) else of_nat (0x61 + (n - 10)))"

text \<open>\<^verbatim>\<open>b.toString(16)\<close> for a byte, and \<^verbatim>\<open>padStart\<close> with a one-unit filler.\<close>

definition toString16 :: "byte \<Rightarrow> jsstring" where
  "toString16 b =
     (if unat b < 16 then [hex_char (unat b)]
      else [hex_char (unat b div 16), hex_char (unat b mod 16)])"

definition padStart :: "jsstring \<Rightarrow> nat \<Rightarrow> jschar \<Rightarrow> jsstring" where
  "padStart s n c = replicate (n - length s) c @ s"

definition uint8ArrayToHex :: "byte list \<Rightarrow> jsstring" where
  "uint8ArrayToHex buf = concat (map (\<lambda>b. padStart (toString16 b) 2 0x30) buf)"

section \<open>Base58Check: the key codec\<close>

text \<open>
  The object the operations pass around. A field that is \<^verbatim>\<open>undefined\<close> is \<open>None\<close>.
  A string is truthy when it is present and not empty; \<^verbatim>\<open>a || b\<close> on strings and the
  text of a value inside a template literal follow.
\<close>

record parts =
  version :: "jsstring option"
  pubKeyHash :: "jsstring option"
  privateKey :: "jsstring option"
  xprv :: "jsstring option"
  xpub :: "jsstring option"
  compressed :: "bool option"
  check :: "jsstring option"
  valid :: "bool option"

definition no_parts :: parts where
  "no_parts = \<lparr>version = None, pubKeyHash = None, privateKey = None, xprv = None,
     xpub = None, compressed = None, check = None, valid = None\<rparr>"

definition truthy :: "jsstring option \<Rightarrow> bool" where
  "truthy v = (case v of None \<Rightarrow> False | Some s \<Rightarrow> s \<noteq> [])"

definition or_else :: "jsstring option \<Rightarrow> jsstring \<Rightarrow> jsstring" where
  "or_else v d = (case v of None \<Rightarrow> d | Some s \<Rightarrow> if s = [] then d else s)"

definition template :: "jsstring option \<Rightarrow> jsstring" where
  "template v = (case v of None \<Rightarrow> js ''undefined'' | Some s \<Rightarrow> s)"

definition PKH_LEN :: nat where
  "PKH_LEN = 40"

text \<open>
  The options of \<^verbatim>\<open>Base58Check.create\<close> and the variables its closure holds. The digest
  \<^verbatim>\<open>Crypto.subtle.digest("SHA-256", _)\<close> belongs to the host: it is a parameter,
  \<open>sha256sum\<close>.
\<close>

record create_opts =
  opt_dictionary :: "jsstring option"
  opt_pubKeyHashVersion :: "jsstring option"
  opt_privateKeyVersion :: "jsstring option"
  opt_xpubVersion :: "jsstring option"
  opt_xprvVersion :: "jsstring option"

record b58c =
  pubKeyHashVersion :: jsstring
  privateKeyVersion :: jsstring
  xpubVersion :: jsstring
  xprvVersion :: jsstring
  bs58 :: base_x
  sha256sum :: "byte list \<Rightarrow> byte list"

definition create :: "(byte list \<Rightarrow> byte list) \<Rightarrow> create_opts option \<Rightarrow> error + b58c" where
  "create digest opts =
     (let dictionary = or_else (Option.bind opts opt_dictionary) BASE58;
          pkhv = or_else (Option.bind opts opt_pubKeyHashVersion) (js ''4c'');
          pkv = or_else (Option.bind opts opt_privateKeyVersion) (js ''cc'');
          xpubv = or_else (Option.bind opts opt_xpubVersion) (js ''0488b21e'');
          xprvv = or_else (Option.bind opts opt_xprvVersion) (js ''0488ade4'')
      in case createEncoder dictionary of
           Inl e \<Rightarrow> Inl e
         | Inr enc \<Rightarrow>
             Inr \<lparr>pubKeyHashVersion = pkhv, privateKeyVersion = pkv, xpubVersion = xpubv,
                  xprvVersion = xprvv, bs58 = enc, sha256sum = digest\<rparr>)"

text \<open>
  The operations write into the object they are given. Each one that does takes the
  object and returns it as it is left, beside its result or the error thrown.
\<close>

definition b58c_setVersion :: "b58c \<Rightarrow> parts \<Rightarrow> (error + unit) \<times> parts" where
  "b58c_setVersion cfg parts =
     (if truthy (pubKeyHash parts) \<and> truthy (privateKey parts) then (Inl EitherButNotBoth, parts)
      else if \<not> truthy (version parts) then
        (if truthy (privateKey parts) then (Inr (), parts\<lparr>version := Some (privateKeyVersion cfg)\<rparr>)
         else if truthy (pubKeyHash parts) then (Inr (), parts\<lparr>version := Some (pubKeyHashVersion cfg)\<rparr>)
         else (Inr (), parts))
      else if truthy (privateKey parts) then
        (if version parts = Some (pubKeyHashVersion cfg)
         then (Inl (PublicVersionPrivateKey (template (version parts))), parts)
         else (Inr (), parts))
      else if truthy (pubKeyHash parts) \<and> version parts = Some (privateKeyVersion cfg)
        then (Inl (PrivateVersionPubKeyHash (template (version parts))), parts)
      else (Inr (), parts))"

definition b58c_checksumHexRaw :: "b58c \<Rightarrow> jsstring \<Rightarrow> jsstring" where
  "b58c_checksumHexRaw cfg hex =
     (let buf = hexToUint8Array hex;
          hash1 = sha256sum cfg buf;
          hash2 = sha256sum cfg hash1;
          last4 = take 4 hash2
      in uint8ArrayToHex last4)"

text \<open>
  \<^verbatim>\<open>b58c.checksum\<close>. \<^verbatim>\<open>key\<close> is \<^verbatim>\<open>undefined\<close> when neither key is there, and
  \<^verbatim>\<open>key.length\<close> is then read (and throws) only if \<^verbatim>\<open>parts.compressed\<close> is true.
\<close>

definition b58c_checksum :: "b58c \<Rightarrow> parts \<Rightarrow> (error + jsstring) \<times> parts" where
  "b58c_checksum cfg parts0 =
     (case b58c_setVersion cfg parts0 of
        (Inl e, parts1) \<Rightarrow> (Inl e, parts1)
      | (Inr _, parts1) \<Rightarrow>
          let parts = parts1\<lparr>compressed :=
                        Some (case compressed parts1 of None \<Rightarrow> True | Some b \<Rightarrow> b)\<rparr>
          in if truthy (pubKeyHash parts) \<and> length (the (pubKeyHash parts)) \<noteq> PKH_LEN
             then (Inl (E_PKH_LENGTH (length (the (pubKeyHash parts)))), parts)
             else
               let key = (if truthy (pubKeyHash parts) then pubKeyHash parts else privateKey parts)
               in if compressed parts = Some True \<and> key = None
                  then (Inl TypeError_undefined_length, parts)
                  else
                    let compression =
                          (if compressed parts = Some True \<and> 64 = length (the key)
                           then js ''01'' else []);
                        hex = template (version parts) @ template key @ compression
                    in (Inr (b58c_checksumHexRaw cfg hex), parts))"

text \<open>
  \<^verbatim>\<open>b58c.decodeHex\<close>. \<^verbatim>\<open>addr.slice(a, -8)\<close> is the part from \<open>a\<close> up to eight units before
  the end, \<^verbatim>\<open>addr.slice(-8)\<close> the last eight units (all of a shorter string).
\<close>

definition b58c_decodeHex :: "b58c \<Rightarrow> jsstring \<Rightarrow> error + parts" where
  "b58c_decodeHex cfg addr =
     (let version0 = take (length (privateKeyVersion cfg)) addr;
          versions = [pubKeyHashVersion cfg, privateKeyVersion cfg];
          xversions = [xpubVersion cfg, xprvVersion cfg];
          xversion = take (length (xprvVersion cfg)) addr;
          isXKey = (version0 \<notin> set versions \<and> xversion \<in> set xversions)
      in if version0 \<notin> set versions \<and> \<not> isXKey then Inl (UnexpectedVersion version0)
         else
           let version = (if version0 \<notin> set versions then xversion else version0)
           in if length addr \<notin> {50, 74, 76} \<and> \<not> isXKey
              then Inl (NotAsLongAsExpected (length addr))
              else
                let rawAddr = drop (length version) (take (length addr - 8) addr);
                    chk = drop (length addr - 8) addr
                in if 50 = length addr
                   then Inr (no_parts\<lparr>version := Some version, pubKeyHash := Some rawAddr,
                                      check := Some chk\<rparr>)
                   else if isXKey then
                     (if version = xprvVersion cfg
                      then Inr (no_parts\<lparr>version := Some version, xprv := Some rawAddr,
                                         check := Some chk\<rparr>)
                      else Inr (no_parts\<lparr>version := Some version, xpub := Some rawAddr,
                                         check := Some chk\<rparr>))
                   else Inr (no_parts\<lparr>version := Some version,
                                      privateKey := Some (take 64 rawAddr),
                                      compressed := Some (js ''01'' = drop 64 rawAddr),
                                      check := Some chk\<rparr>))"

definition b58c_decode :: "b58c \<Rightarrow> jsstring \<Rightarrow> error + parts" where
  "b58c_decode cfg b58Addr =
     (case decode (bs58 cfg) b58Addr of
        Inl e \<Rightarrow> Inl e
      | Inr u8 \<Rightarrow> b58c_decodeHex cfg (uint8ArrayToHex u8))"

text \<open>
  \<^verbatim>\<open>b58c.verifyHex\<close>; \<open>opts\<close> is the optional second argument and \<open>verify\<close> its optional
  field. \<^verbatim>\<open>b58c.verify\<close> passes no options.
\<close>

record verify_opts =
  verify :: "bool option"

definition b58c_verifyHex :: "b58c \<Rightarrow> jsstring \<Rightarrow> verify_opts option \<Rightarrow> error + parts" where
  "b58c_verifyHex cfg base58check opts =
     (case b58c_decodeHex cfg base58check of
        Inl e \<Rightarrow> Inl e
      | Inr parts0 \<Rightarrow>
          (case b58c_checksum cfg parts0 of
             (Inl e, _) \<Rightarrow> Inl e
           | (Inr chk, parts) \<Rightarrow>
               let valid' = (check parts = Some chk)
               in if \<not> valid' then
                    (if Option.bind opts verify \<noteq> Some False
                     then Inl (ChecksumMismatch (template (check parts)) chk)
                     else Inr (parts\<lparr>valid := Some valid'\<rparr>))
                  else Inr parts))"

definition b58c_verify :: "b58c \<Rightarrow> jsstring \<Rightarrow> error + parts" where
  "b58c_verify cfg b58Addr =
     (case decode (bs58 cfg) b58Addr of
        Inl e \<Rightarrow> Inl e
      | Inr u8 \<Rightarrow> b58c_verifyHex cfg (uint8ArrayToHex u8) None)"

definition b58c_encodeXKey :: "b58c \<Rightarrow> jsstring \<Rightarrow> error + jsstring" where
  "b58c_encodeXKey cfg versionAndKeyHex =
     (let checkHex = b58c_checksumHexRaw cfg versionAndKeyHex;
          u8 = hexToUint8Array (versionAndKeyHex @ checkHex)
      in encode (bs58 cfg) u8)"

text \<open>
  \<^verbatim>\<open>b58c._encodePrivateKeyHex\<close> and \<^verbatim>\<open>b58c._encodePubKeyHashHex\<close>. Called without the
  key they read \<^verbatim>\<open>.length\<close> of \<^verbatim>\<open>undefined\<close>.
\<close>

definition b58c_encodePrivateKeyHex :: "b58c \<Rightarrow> parts \<Rightarrow> (error + jsstring) \<times> parts" where
  "b58c_encodePrivateKeyHex cfg parts0 =
     (let parts1 = parts0\<lparr>compressed :=
                      Some (case compressed parts0 of None \<Rightarrow> True | Some b \<Rightarrow> b)\<rparr>
      in case privateKey parts1 of
           None \<Rightarrow> (Inl TypeError_undefined_length, parts1)
         | Some key0 \<Rightarrow>
             if \<not> (66 = length key0 \<and> js ''01'' = drop (length key0 - 2) key0) \<and> 64 \<noteq> length key0
             then (Inl (InvalidPrivateKeyLength (length key0) (compressed parts1 = Some True)), parts1)
             else
               let parts2 = (if 66 = length key0 \<and> js ''01'' = drop (length key0 - 2) key0
                             then parts1\<lparr>compressed := Some True\<rparr> else parts1);
                   key = (if 66 = length key0 \<and> js ''01'' = drop (length key0 - 2) key0 then key0
                          else if compressed parts1 = Some True then key0 @ js ''01''
                          else key0 @ js ''00'')
               in case b58c_setVersion cfg parts2 of
                    (Inl e, parts3) \<Rightarrow> (Inl e, parts3)
                  | (Inr _, parts3) \<Rightarrow>
                      (case b58c_checksum cfg parts3 of
                         (Inl e, parts4) \<Rightarrow> (Inl e, parts4)
                       | (Inr chk, parts4) \<Rightarrow>
                           (Inr (template (version parts4) @ key @ chk), parts4)))"

definition b58c_encodePubKeyHashHex :: "b58c \<Rightarrow> parts \<Rightarrow> (error + jsstring) \<times> parts" where
  "b58c_encodePubKeyHashHex cfg parts =
     (case pubKeyHash parts of
        None \<Rightarrow> (Inl TypeError_undefined_length, parts)
      | Some key \<Rightarrow>
          if 40 \<noteq> length key then (Inl (InvalidPubKeyHashLength (length key)), parts)
          else case b58c_setVersion cfg parts of
                 (Inl e, parts1) \<Rightarrow> (Inl e, parts1)
               | (Inr _, parts1) \<Rightarrow>
                   (case b58c_checksum cfg parts1 of
                      (Inl e, parts2) \<Rightarrow> (Inl e, parts2)
                    | (Inr chk, parts2) \<Rightarrow>
                        (Inr (template (version parts2) @ key @ chk), parts2)))"

definition b58c_encodeHex :: "b58c \<Rightarrow> parts \<Rightarrow> (error + jsstring) \<times> parts" where
  "b58c_encodeHex cfg parts =
     (if truthy (pubKeyHash parts) then b58c_encodePubKeyHashHex cfg parts
      else if truthy (privateKey parts) then b58c_encodePrivateKeyHex cfg parts
      else (Inl MustExistToEncode, parts))"

definition b58c_encode :: "b58c \<Rightarrow> parts \<Rightarrow> (error + jsstring) \<times> parts" where
  "b58c_encode cfg parts =
     (if truthy (xprv parts) then
        (let version' = or_else (version parts) (xprvVersion cfg)
         in (b58c_encodeXKey cfg (version' @ template (xprv parts)), parts))
      else if truthy (xpub parts) then
        (let version' = or_else (version parts) (xpubVersion cfg)
         in (b58c_encodeXKey cfg (version' @ template (xpub parts)), parts))
      else case b58c_encodeHex cfg parts of
             (Inl e, parts1) \<Rightarrow> (Inl e, parts1)
           | (Inr hex, parts1) \<Rightarrow> (encode (bs58 cfg) (hexToUint8Array hex), parts1))"

section \<open>Numbers denoted by digit arrays\<close>

text \<open>The number a big-endian digit array denotes in base \<open>d\<close>.\<close>

definition val :: "nat \<Rightarrow> byte list \<Rightarrow> nat" where
  "val d b = foldl (\<lambda>a x. a * d + unat x) 0 b"

text \<open>What \<^verbatim>\<open>createEncoder\<close> establishes about the encoder it returns.\<close>

definition wf_base_x :: "base_x \<Rightarrow> bool" where
  "wf_base_x c \<longleftrightarrow>
     ALPHABET c \<noteq> [] \<and> BASE c = length (ALPHABET c) \<and> length (ALPHABET c) < 255 \<and>
     LEADER c = [ALPHABET c ! 0] \<and> distinct (ALPHABET c) \<and> length (BASE_MAP c) = 256 \<and>
     (\<forall>j<length (ALPHABET c). unat (ALPHABET c ! j) < 256 \<and>
        BASE_MAP c ! unat (ALPHABET c ! j) = of_nat j) \<and>
     (\<forall>k<256. k \<notin> unat ` set (ALPHABET c) \<longrightarrow> BASE_MAP c ! k = 255)"

section \<open>Concrete encoders\<close>

text \<open>
  The encoder \<^verbatim>\<open>createEncoder\<close> builds for the default dictionary, with its lookup
  table written out, and the one it builds for the one-symbol alphabet \<^verbatim>\<open>"a"\<close>.
\<close>


definition BASE58_MAP :: "byte list" where
  "BASE58_MAP =
    [255, 255, 255, 255, 255, 255, 255, 255, 255, 255, 255, 255, 255, 255, 255, 255,
     255, 255, 255, 255, 255, 255, 255, 255, 255, 255, 255, 255, 255, 255, 255, 255,
     255, 255, 255, 255, 255, 255, 255, 255, 255, 255, 255, 255, 255, 255, 255, 255,
     255, 0, 1, 2, 3, 4, 5, 6, 7, 8, 255, 255, 255, 255, 255, 255,
     255, 9, 10, 11, 12, 13, 14, 15, 16, 255, 17, 18, 19, 20, 21, 255,
     22, 23, 24, 25, 26, 27, 28, 29, 30, 31, 32, 255, 255, 255, 255, 255,
     255, 33, 34, 35, 36, 37, 38, 39, 40, 41, 42, 43, 255, 44, 45, 46,
     47, 48, 49, 50, 51, 52, 53, 54, 55, 56, 57, 255, 255, 255, 255, 255,
     255, 255, 255, 255, 255, 255, 255, 255, 255, 255, 255, 255, 255, 255, 255, 255,
     255, 255, 255, 255, 255, 255, 255, 255, 255, 255, 255, 255, 255, 255, 255, 255,
     255, 255, 255, 255, 255, 255, 255, 255, 255, 255, 255, 255, 255, 255, 255, 255,
     255, 255, 255, 255, 255, 255, 255, 255, 255, 255, 255, 255, 255, 255, 255, 255,
     255, 255, 255, 255, 255, 255, 255, 255, 255, 255, 255, 255, 255, 255, 255, 255,
     255, 255, 255, 255, 255, 255, 255, 255, 255, 255, 255, 255, 255, 255, 255, 255,
     255, 255, 255, 255, 255, 255, 255, 255, 255, 255, 255, 255, 255, 255, 255, 255,
     255, 255, 255, 255, 255, 255, 255, 255, 255, 255, 255, 255, 255, 255, 255, 255]"

definition bs58_default :: base_x where
  "bs58_default = \<lparr>ALPHABET = BASE58, BASE_MAP = BASE58_MAP, BASE = 58, LEADER = js ''1''\<rparr>"

definition unary_codec :: base_x where
  "unary_codec = \<lparr>ALPHABET = js ''a'', BASE_MAP = (replicate 256 255)[97 := 0], BASE = 1,
     LEADER = js ''a''\<rparr>"

section \<open>Hex strings as the codec writes them, and a concrete key codec\<close>

text \<open>
  \<^verbatim>\<open>uint8ArrayToHex\<close> writes lower-case digits; \<open>lower_hex\<close> holds of the strings made of
  them.
\<close>

definition lower_hex_digit :: "jschar \<Rightarrow> bool" where
  "lower_hex_digit c \<longleftrightarrow> c \<in> set (js ''0123456789abcdef'')"

definition lower_hex :: "jsstring \<Rightarrow> bool" where
  "lower_hex s \<longleftrightarrow> (\<forall>c\<in>set s. lower_hex_digit c)"

text \<open>
  What \<^verbatim>\<open>Base58Check.create()\<close> returns without options, over a stand-in digest that
  returns 32 zero bytes; it is used for concrete instances only.
\<close>

definition zero_digest :: "byte list \<Rightarrow> byte list" where
  "zero_digest u8 = replicate 32 0"

definition dash_mainnet :: b58c where
  "dash_mainnet = \<lparr>pubKeyHashVersion = js ''4c'', privateKeyVersion = js ''cc'',
     xpubVersion = js ''0488b21e'', xprvVersion = js ''0488ade4'', bs58 = bs58_default,
     sha256sum = zero_digest\<rparr>"

text \<open>Sample records: a pubKeyHash of 20 zero bytes and a private key of 32 zero bytes.\<close>

definition sample_pkh :: parts where
  "sample_pkh = no_parts\<lparr>pubKeyHash := Some (replicate 40 0x30)\<rparr>"

definition sample_key :: parts where
  "sample_key = no_parts\<lparr>privateKey := Some (replicate 64 0x30)\<rparr>"

text \<open>Two records agree on every field but \<^verbatim>\<open>version\<close> and \<^verbatim>\<open>compressed\<close>.\<close>

definition same_payload :: "parts \<Rightarrow> parts \<Rightarrow> bool" where
  "same_payload p p' \<longleftrightarrow>
     pubKeyHash p' = pubKeyHash p \<and> privateKey p' = privateKey p \<and> xprv p' = xprv p \<and>
     xpub p' = xpub p \<and> check p' = check p \<and> valid p' = valid p"

text \<open>
  A codec with Bitcoin's version bytes, which the source's documentation names, over a
  stand-in digest that returns 32 bytes \<open>01\<close>; for concrete instances only.
\<close>

definition ones_digest :: "byte list \<Rightarrow> byte list" where
  "ones_digest u8 = replicate 32 1"

definition bitcoin_like :: b58c where
  "bitcoin_like = \<lparr>pubKeyHashVersion = js ''00'', privateKeyVersion = js ''80'',
     xpubVersion = js ''0488b21e'', xprvVersion = js ''0488ade4'', bs58 = bs58_default,
     sha256sum = ones_digest\<rparr>"

text \<open>
  Hex strings as a caller may write them, in either case, and the lower-case form of a
  character.
\<close>

definition hex_digit :: "jschar \<Rightarrow> bool" where
  "hex_digit c \<longleftrightarrow> c \<in> set (js ''0123456789abcdefABCDEF'')"

definition hex_string :: "jsstring \<Rightarrow> bool" where
  "hex_string s \<longleftrightarrow> (\<forall>c\<in>set s. hex_digit c)"

definition lower_case :: "jschar \<Rightarrow> jschar" where
  "lower_case c = (if 0x41 \<le> c \<and> c \<le> 0x5A then c + 0x20 else c)"

text \<open>
  The options that ask for the one-symbol dictionary \<^verbatim>\<open>"a"\<close>, and what
  \<^verbatim>\<open>Base58Check.create\<close> returns for them over the zero digest.
\<close>

definition unary_opts :: create_opts where
  "unary_opts = \<lparr>opt_dictionary = Some (js ''a''), opt_pubKeyHashVersion = None,
     opt_privateKeyVersion = None, opt_xpubVersion = None, opt_xprvVersion = None\<rparr>"

definition unary_b58c :: b58c where
  "unary_b58c = \<lparr>pubKeyHashVersion = js ''4c'', privateKeyVersion = js ''cc'',
     xpubVersion = js ''0488b21e'', xprvVersion = js ''0488ade4'', bs58 = unary_codec,
     sha256sum = zero_digest\<rparr>"

section \<open>The conversion loops compute the digits of the same number\<close>


lemma val_Nil [simp]: "val d [] = 0"
  by (simp add: val_def)

lemma val_snoc [simp]: "val d (xs @ [x]) = val d xs * d + unat x"
  by (simp add: val_def)

lemma val_append: "val d (xs @ ys) = val d xs * d ^ length ys + val d ys"
proof (induction ys rule: rev_induct)
  case Nil
  then show ?case by simp
next
  case (snoc y ys)
  have "val d (xs @ ys @ [y]) = val d ((xs @ ys) @ [y])" by simp
  also have "\<dots> = val d (xs @ ys) * d + unat y" by (rule val_snoc)
  finally show ?case using snoc by (simp add: algebra_simps)
qed

lemma val_Cons: "val d (x # xs) = unat x * d ^ length xs + val d xs"
  using val_append [of d "[x]" xs] val_snoc [of d "[]" x] by simp

lemma val_zero: "\<forall>x\<in>set xs. x = 0 \<Longrightarrow> val d xs = 0"
  by (induction xs rule: rev_induct) auto

lemma val_bound: "\<forall>x\<in>set xs. unat x < d \<Longrightarrow> val d xs < d ^ length xs"
proof (induction xs rule: rev_induct)
  case Nil
  then show ?case by simp
next
  case (snoc x xs)
  then have a: "val d xs + 1 \<le> d ^ length xs" and b: "unat x < d" by auto
  have "val d xs * d + unat x < (val d xs + 1) * d" using b by simp
  also have "\<dots> \<le> d ^ length xs * d" using a by (rule mult_le_mono1)
  finally show ?case by (simp add: mult.commute)
qed

lemma unat_byte: "unat (x :: byte) < 256"
  using unsigned_less [of x, where 'a = nat] by simp

lemma u32_small: "x < 4294967296 \<Longrightarrow> u32 x = x"
  by (simp add: u32_def)

lemma carry_loop_spec:
  assumes d: "2 \<le> d" "d \<le> 256" and m: "m \<le> 256"
  shows "length P = k \<Longrightarrow> carry < 65536 \<Longrightarrow> \<forall>x\<in>set P. unat x < d \<Longrightarrow>
     \<forall>j<k. j + (len - i) < k \<longrightarrow> P ! j = 0 \<Longrightarrow>
     \<exists>P' c' n. carry_loop m d len k i carry (P @ S) = (c', i + n, P' @ S) \<and> length P' = k \<and> n \<le> k \<and>
        val d P' + c' * d ^ k = m * val d P + carry \<and> (\<forall>x\<in>set P'. unat x < d) \<and>
        (\<forall>j<k. j + n < k \<longrightarrow> P' ! j = 0)"
proof (induction k arbitrary: P i carry S)
  case 0
  then show ?case by simp
next
  case (Suc k)
  from Suc.prems(1) obtain P0 x where P: "P = P0 @ [x]" and lP0: "length P0 = k"
    by (metis length_Suc_conv_rev)
  show ?case
  proof (cases "carry \<noteq> 0 \<or> i < len")
    case True
    define carry1 where "carry1 = carry + m * unat x"
    define y :: byte where "y = of_nat (carry1 mod d)"
    define carry2 where "carry2 = carry1 div d"
    have ux: "unat x < 256" by (rule unat_byte)
    have "m * unat x \<le> 256 * 255"
      using m ux by (intro mult_mono) auto
    then have mx: "m * unat x < 4294967296" and c1: "carry1 < 131072"
      using Suc.prems(2) by (auto simp: carry1_def)
    have md: "carry1 mod d < d" using d by simp
    have md256: "carry1 mod d < 256" using md d by linarith
    then have md32: "carry1 mod d < 4294967296" by linarith
    have uy: "unat y = carry1 mod d"
      using md256 by (simp add: y_def unat_of_nat)
    have c1': "carry1 div d < 4294967296"
      using c1 div_le_dividend [of carry1 d] by linarith
    have "carry1 div d \<le> carry1 div 2" using d by (intro div_le_mono2) auto
    moreover have "carry1 div 2 < 65536" using c1 by simp
    ultimately have c2: "carry2 < 65536" by (simp add: carry2_def)
    have e1: "carry + u32 (m * unat ((P @ S) ! k)) = carry1"
      using mx by (simp add: P lP0 nth_append u32_small carry1_def)
    have e2: "(P @ S)[k := of_nat (u32 (carry1 mod d))] = P0 @ y # S"
      using md32 by (simp add: P lP0 list_update_append u32_small y_def)
    have e3: "u32 (carry1 div d) = carry2"
      using c1' by (simp add: u32_small carry2_def)
    have step: "carry_loop m d len (Suc k) i carry (P @ S)
        = carry_loop m d len k (i + 1) carry2 (P0 @ (y # S))"
      using True by (simp add: Let_def e1 e2 e3)
    have z0: "\<forall>j<k. j + (len - (i + 1)) < k \<longrightarrow> P0 ! j = 0"
    proof (intro allI impI)
      fix j assume j: "j < k" "j + (len - (i + 1)) < k"
      then have "j < Suc k" "j + (len - i) < Suc k" by auto
      with Suc.prems(4) have "P ! j = 0" by blast
      then show "P0 ! j = 0" using j lP0 by (simp add: P nth_append)
    qed
    have dig0: "\<forall>x\<in>set P0. unat x < d" using Suc.prems(3) by (simp add: P)
    from Suc.IH [OF lP0 c2 dig0 z0, of "y # S"]
    obtain P0' c' n where r: "carry_loop m d len k (i + 1) carry2 (P0 @ y # S) = (c', i + 1 + n, P0' @ y # S)"
      and l': "length P0' = k" and n: "n \<le> k"
      and v: "val d P0' + c' * d ^ k = m * val d P0 + carry2"
      and dig: "\<forall>x\<in>set P0'. unat x < d"
      and z: "\<forall>j<k. j + n < k \<longrightarrow> P0' ! j = 0"
      by blast
    have v': "val d (P0' @ [y]) + c' * d ^ Suc k = m * val d P + carry"
    proof -
      have "val d (P0' @ [y]) + c' * d ^ Suc k = (val d P0' + c' * d ^ k) * d + carry1 mod d"
        by (simp add: uy algebra_simps)
      also have "\<dots> = (m * val d P0 + carry2) * d + carry1 mod d" by (simp only: v)
      also have "\<dots> = m * val d P0 * d + (carry1 div d * d + carry1 mod d)"
        by (simp add: carry2_def algebra_simps)
      also have "\<dots> = m * val d P0 * d + carry1" by simp
      also have "\<dots> = m * val d P + carry" by (simp add: P carry1_def algebra_simps)
      finally show ?thesis .
    qed
    have z': "\<forall>j<Suc k. j + Suc n < Suc k \<longrightarrow> (P0' @ [y]) ! j = 0"
      using z l' by (auto simp: nth_append)
    show ?thesis
      apply (rule exI [of _ "P0' @ [y]"], rule exI [of _ c'], rule exI [of _ "Suc n"])
      using step r l' n v' dig z' md uy by simp
  next
    case False
    then have c0: "carry = 0" and il: "len - i = 0" by auto
    have "\<forall>j<Suc k. P ! j = 0" using Suc.prems(4) il by simp
    then have "\<forall>x\<in>set P. x = 0" using Suc.prems(1) by (metis in_set_conv_nth)
    then have vz: "val d P = 0" by (rule val_zero)
    show ?thesis
      apply (rule exI [of _ P], rule exI [of _ 0], rule exI [of _ 0])
      using False Suc.prems vz c0 il by simp
  qed
qed


lemma le_mult_power:
  assumes "0 < (d::nat)"
  shows "a \<le> a * d ^ n + r"
proof -
  have "1 \<le> d ^ n" using assms by (simp add: Suc_leI)
  then have "a * 1 \<le> a * d ^ n" by (rule mult_le_mono2)
  then show ?thesis by linarith
qed

lemma div_digit:
  assumes "r < (p::nat)"
  shows "(a * p + r) div p = a"
proof -
  have "p \<noteq> 0" using assms by auto
  then have "(a * p + r) div p = a + r div p" by (rule div_mult_self3)
  then show ?thesis using assms by simp
qed

lemma le_mult_nonzero:
  assumes "c \<noteq> (0::nat)"
  shows "p \<le> c * p + r"
proof -
  have "1 \<le> c" using assms by simp
  then have "1 * p \<le> c * p" by (rule mult_le_mono1)
  then show ?thesis by linarith
qed

lemma encode_loop_spec:
  assumes B: "2 \<le> B" "B \<le> 256"
  shows "length b = sz \<Longrightarrow> \<forall>x\<in>set b. unat x < B \<Longrightarrow>
     \<forall>j < sz. j + len < sz \<longrightarrow> b ! j = 0 \<Longrightarrow>
     val B b * 256 ^ length bs + val 256 bs < B ^ sz \<Longrightarrow>
     \<exists>len' b'. encode_loop B sz bs len b = Inr (len', b') \<and> length b' = sz \<and>
        (\<forall>x\<in>set b'. unat x < B) \<and> (\<forall>j < sz. j + len' < sz \<longrightarrow> b' ! j = 0) \<and>
        val B b' = val B b * 256 ^ length bs + val 256 bs"
proof (induction bs arbitrary: len b)
  case Nil
  then show ?case by simp
next
  case (Cons x rest)
  have ux: "unat x < 65536" using unat_byte [of x] by simp
  have z: "\<forall>j < sz. j + (len - 0) < sz \<longrightarrow> b ! j = 0" using Cons.prems(3) by simp
  from carry_loop_spec [OF B _ Cons.prems(1) ux Cons.prems(2) z, of 256 "[]"]
  obtain P' c' n where r: "carry_loop 256 B len sz 0 (unat x) b = (c', n, P')"
    and l': "length P' = sz"
    and v: "val B P' + c' * B ^ sz = 256 * val B b + unat x"
    and dig: "\<forall>x\<in>set P'. unat x < B"
    and z': "\<forall>j < sz. j + n < sz \<longrightarrow> P' ! j = 0"
    by auto
  let ?tot = "val B b * 256 ^ length (x # rest) + val 256 (x # rest)"
  have tot: "?tot = (256 * val B b + unat x) * 256 ^ length rest + val 256 rest"
    by (simp add: val_Cons algebra_simps)
  have "256 * val B b + unat x \<le> ?tot" unfolding tot by (rule le_mult_power) simp
  then have lt: "val B P' + c' * B ^ sz < B ^ sz" using Cons.prems(4) v by linarith
  have c0: "c' = 0"
  proof (rule ccontr)
    assume "c' \<noteq> 0"
    then have "B ^ sz \<le> c' * B ^ sz + val B P'" by (rule le_mult_nonzero)
    with lt show False by simp
  qed
  have v2: "val B P' = 256 * val B b + unat x" using v c0 by simp
  have pre: "val B P' * 256 ^ length rest + val 256 rest < B ^ sz"
    using Cons.prems(4) unfolding tot v2 .
  from Cons.IH [OF l' dig z' pre]
  obtain len' b' where "encode_loop B sz rest n P' = Inr (len', b')" "length b' = sz"
    "\<forall>x\<in>set b'. unat x < B" "\<forall>j < sz. j + len' < sz \<longrightarrow> b' ! j = 0"
    "val B b' = val B P' * 256 ^ length rest + val 256 rest"
    by blast
  then show ?case using r c0 tot v2 by simp
qed

lemma strip_zero_prefix:
  assumes "\<forall>j<length b. j + len < length b \<longrightarrow> b ! j = 0"
  shows "dropWhile (\<lambda>d. d = 0) (drop (length b - len) b) = dropWhile (\<lambda>d. d = (0::byte)) b"
proof -
  let ?n = "length b - len"
  have "\<And>x. x \<in> set (take ?n b) \<Longrightarrow> x = 0"
  proof -
    fix x assume "x \<in> set (take ?n b)"
    then obtain j where j: "j < length (take ?n b)" "take ?n b ! j = x"
      by (metis in_set_conv_nth)
    then have "j < length b" "j + len < length b" by auto
    with assms have "b ! j = 0" by blast
    with j show "x = 0" by simp
  qed
  then have "dropWhile (\<lambda>d. d = 0) (take ?n b @ drop ?n b) = dropWhile (\<lambda>d. d = 0) (drop ?n b)"
    by (rule dropWhile_append2)
  then show ?thesis by simp
qed

lemma val_dropWhile_zero: "val d (dropWhile (\<lambda>x. x = 0) b) = val d b"
  by (induction b) (auto simp: val_Cons)

lemma val_inj:
  assumes "length xs = length ys" "\<forall>x\<in>set xs. unat x < d" "\<forall>y\<in>set ys. unat y < d"
    "val d xs = val d ys"
  shows "xs = ys"
  using assms
proof (induction xs ys rule: list_induct2)
  case Nil
  then show ?case by simp
next
  case (Cons x xs y ys)
  let ?p = "d ^ length xs"
  have bx: "val d xs < ?p" using Cons.prems(1) by (intro val_bound) simp
  have by': "val d ys < ?p" using Cons.prems(2) Cons.hyps by (metis val_bound list.set_intros(2))
  have e: "unat x * ?p + val d xs = unat y * ?p + val d ys"
    using Cons.prems(3) Cons.hyps by (simp add: val_Cons)
  have "(unat x * ?p + val d xs) div ?p = unat x" using bx by (rule div_digit)
  moreover have "(unat y * ?p + val d ys) div ?p = unat y" using by' by (rule div_digit)
  ultimately have xy: "unat x = unat y" using e by simp
  then have "val d xs = val d ys" using e by simp
  then have "xs = ys" using Cons by simp
  moreover have "x = y" using xy by (simp add: word_unat_eq_iff)
  ultimately show ?case by simp
qed

lemma canonical_lower:
  assumes "xs \<noteq> []" "hd xs \<noteq> 0"
  shows "d ^ (length xs - 1) \<le> val d xs"
proof -
  obtain x r where xs: "xs = x # r" using assms(1) by (cases xs) auto
  then have "unat x \<noteq> 0" using assms(2) by (simp add: unat_eq_0)
  then have "d ^ length r \<le> unat x * d ^ length r + val d r" by (rule le_mult_nonzero)
  then show ?thesis by (simp add: xs val_Cons)
qed

lemma canonical_unique:
  assumes d: "2 \<le> d"
    and cx: "xs = [] \<or> hd xs \<noteq> 0" and cy: "ys = [] \<or> hd ys \<noteq> 0"
    and dx: "\<forall>x\<in>set xs. unat x < d" and dy: "\<forall>y\<in>set ys. unat y < d"
    and v: "val d xs = val d ys"
  shows "xs = ys"
proof -
  have le: "length a \<le> length b"
    if "a = [] \<or> hd a \<noteq> 0" "\<forall>y\<in>set b. unat y < d" "val d a = val d b" for a b :: "byte list"
  proof (cases "a = []")
    case True
    then show ?thesis by simp
  next
    case False
    then have "d ^ (length a - 1) \<le> val d a" using that(1) by (intro canonical_lower) auto
    also have "\<dots> < d ^ length b" using that(2,3) val_bound [of b d] by simp
    finally have "length a - 1 < length b" using d by (simp add: power_strict_increasing_iff)
    then show ?thesis using False by (cases a) auto
  qed
  have "length xs = length ys"
    using le [OF cx dy v] le [OF cy dx v [symmetric]] by simp
  then show ?thesis using dx dy v by (rule val_inj)
qed


lemma byte_of_nat_neq_255: "i < 255 \<Longrightarrow> (of_nat i :: byte) \<noteq> 255"
proof
  assume i: "i < 255" and e: "(of_nat i :: byte) = 255"
  have "unat (of_nat i :: byte) = i" using i by (simp add: unat_of_nat)
  with e show False using i by simp
qed

lemma fill_BASE_MAP_spec:
  "fill_BASE_MAP xs i m = Inr m' \<Longrightarrow> i + length xs \<le> 255 \<Longrightarrow>
     length m' = length m \<and> distinct xs \<and>
     (\<forall>x\<in>set xs. unat x < length m \<and> m ! unat x = 255) \<and>
     (\<forall>j<length xs. m' ! unat (xs ! j) = of_nat (i + j)) \<and>
     (\<forall>k<length m. k \<notin> unat ` set xs \<longrightarrow> m' ! k = m ! k)"
proof (induction xs arbitrary: i m)
  case Nil
  then show ?case by simp
next
  case (Cons x xs)
  let ?xc = "unat x"
  let ?m1 = "m[?xc := of_nat i]"
  from Cons.prems(1) have xc: "?xc < length m" and mx: "m ! ?xc = 255"
    and r: "fill_BASE_MAP xs (i + 1) ?m1 = Inr m'"
    by (auto simp: Let_def split: if_splits)
  have i: "i < 255" and i': "(i + 1) + length xs \<le> 255" using Cons.prems(2) by auto
  from Cons.IH [OF r i']
  have l: "length m' = length ?m1" and dist: "distinct xs"
    and free: "\<forall>y\<in>set xs. unat y < length ?m1 \<and> ?m1 ! unat y = 255"
    and at: "\<forall>j<length xs. m' ! unat (xs ! j) = of_nat (i + 1 + j)"
    and frame: "\<forall>k<length ?m1. k \<notin> unat ` set xs \<longrightarrow> m' ! k = ?m1 ! k"
    by blast+
  have m1x: "?m1 ! ?xc \<noteq> 255" using xc i by (simp add: byte_of_nat_neq_255)
  have ne: "unat y \<noteq> ?xc" if "y \<in> set xs" for y
    using free that m1x by metis
  then have xnotin: "x \<notin> set xs" by blast
  have xcnotin: "?xc \<notin> unat ` set xs"
  proof
    assume "?xc \<in> unat ` set xs"
    then obtain y where y: "y \<in> set xs" "?xc = unat y" by (rule imageE)
    from ne [OF y(1)] y(2) show False by simp
  qed
  have c1: "length m' = length m" using l by simp
  have c2: "distinct (x # xs)" using dist xnotin by simp
  have c3: "\<forall>y\<in>set (x # xs). unat y < length m \<and> m ! unat y = 255"
  proof
    fix y assume "y \<in> set (x # xs)"
    then consider "y = x" | "y \<in> set xs" by auto
    then show "unat y < length m \<and> m ! unat y = 255"
    proof cases
      case 1
      then show ?thesis using xc mx by simp
    next
      case 2
      then have "unat y < length m" "?m1 ! unat y = 255" "unat y \<noteq> ?xc"
        using free ne by auto
      then show ?thesis by simp
    qed
  qed
  have c4: "\<forall>j<length (x # xs). m' ! unat ((x # xs) ! j) = of_nat (i + j)"
  proof (intro allI impI)
    fix j assume j: "j < length (x # xs)"
    show "m' ! unat ((x # xs) ! j) = of_nat (i + j)"
    proof (cases j)
      case 0
      have "m' ! ?xc = ?m1 ! ?xc" using frame xc xcnotin by simp
      then show ?thesis using 0 xc by simp
    next
      case (Suc j')
      then show ?thesis using at j by simp
    qed
  qed
  have c5: "\<forall>k<length m. k \<notin> unat ` set (x # xs) \<longrightarrow> m' ! k = m ! k"
  proof (intro allI impI)
    fix k assume k: "k < length m" "k \<notin> unat ` set (x # xs)"
    then have "k \<noteq> ?xc" "k \<notin> unat ` set xs" by auto
    then show "m' ! k = m ! k" using frame k(1) by simp
  qed
  show ?case using c1 c2 c3 c4 c5 by blast
qed

lemma BASE58_nonempty: "BASE58 \<noteq> []"
  by (simp add: BASE58_def js_def)

lemma createEncoder_wf:
  assumes "createEncoder A0 = Inr c"
  shows "wf_base_x c"
proof -
  define A where "A = (if A0 = [] then BASE58 else A0)"
  have A: "A \<noteq> []" using BASE58_nonempty by (simp add: A_def)
  from assms obtain m where len: "length A < 255"
    and m: "fill_BASE_MAP A 0 (replicate 256 255) = Inr m"
    and c: "c = \<lparr>ALPHABET = A, BASE_MAP = m, BASE = length A, LEADER = charAt A 0\<rparr>"
    unfolding createEncoder_def A_def [symmetric]
    by (auto simp: Let_def split: if_splits sum.splits)
  from len have "0 + length A \<le> 255" by simp
  from fill_BASE_MAP_spec [OF m this]
  have l: "length m = 256" and dist: "distinct A"
    and free: "\<forall>x\<in>set A. unat x < 256"
    and at: "\<forall>j<length A. m ! unat (A ! j) = of_nat j"
    and frame: "\<forall>k<256. k \<notin> unat ` set A \<longrightarrow> m ! k = 255"
    by auto
  show ?thesis
    unfolding wf_base_x_def using A len l dist free at frame
    by (simp add: c charAt_def)
qed


lemma wf_digit:
  assumes "wf_base_x c" "unat (d::byte) < BASE c"
  shows "unat (ALPHABET c ! unat d) < length (BASE_MAP c)"
    and "BASE_MAP c ! unat (ALPHABET c ! unat d) = d"
    and "d \<noteq> 255"
proof -
  have j: "unat d < length (ALPHABET c)" using assms by (simp add: wf_base_x_def)
  with assms(1) have "unat (ALPHABET c ! unat d) < 256"
    and "BASE_MAP c ! unat (ALPHABET c ! unat d) = of_nat (unat d)"
    and l: "length (BASE_MAP c) = 256"
    by (auto simp: wf_base_x_def)
  then show "unat (ALPHABET c ! unat d) < length (BASE_MAP c)"
    and "BASE_MAP c ! unat (ALPHABET c ! unat d) = d" by simp_all
  have "unat d < 255" using j assms(1) by (simp add: wf_base_x_def)
  then show "d \<noteq> 255" by auto
qed

lemma decode_loop_spec:
  assumes wf: "wf_base_x c"
  shows "length b = sz \<Longrightarrow> \<forall>j < sz. j + len < sz \<longrightarrow> b ! j = 0 \<Longrightarrow>
     \<forall>d\<in>set ds. unat d < BASE c \<Longrightarrow>
     val 256 b * BASE c ^ length ds + val (BASE c) ds < 256 ^ sz \<Longrightarrow>
     \<exists>len' b'. decode_loop c sz (map (\<lambda>d. ALPHABET c ! unat d) ds) len b = Inr (Some (len', b')) \<and>
        length b' = sz \<and> (\<forall>j < sz. j + len' < sz \<longrightarrow> b' ! j = 0) \<and>
        val 256 b' = val 256 b * BASE c ^ length ds + val (BASE c) ds"
proof (induction ds arbitrary: len b)
  case Nil
  then show ?case by simp
next
  case (Cons x rest)
  let ?B = "BASE c"
  have B: "?B \<le> 256" "0 < ?B" using wf by (auto simp: wf_base_x_def)
  have xB: "unat x < ?B" using Cons.prems(3) by simp
  note dg = wf_digit [OF wf xB]
  have ux: "unat x < 65536" using unat_byte [of x] by simp
  have un: "unat x \<noteq> 255" using dg(3) by (simp add: word_unat_eq_iff)
  have z: "\<forall>j < sz. j + (len - 0) < sz \<longrightarrow> b ! j = 0" using Cons.prems(2) by simp
  have bytes: "\<forall>x\<in>set b. unat x < 256" using unat_byte by blast
  from carry_loop_spec [OF _ _ B(1) Cons.prems(1) ux bytes z, of "[]"]
  obtain P' c' n where r: "carry_loop ?B 256 len sz 0 (unat x) b = (c', n, P')"
    and l': "length P' = sz"
    and v: "val 256 P' + c' * 256 ^ sz = ?B * val 256 b + unat x"
    and z': "\<forall>j < sz. j + n < sz \<longrightarrow> P' ! j = 0"
    by auto
  let ?tot = "val 256 b * ?B ^ length (x # rest) + val ?B (x # rest)"
  have tot: "?tot = (?B * val 256 b + unat x) * ?B ^ length rest + val ?B rest"
    by (simp add: val_Cons algebra_simps)
  have "?B * val 256 b + unat x \<le> ?tot" unfolding tot using B(2) by (rule le_mult_power)
  then have lt: "val 256 P' + c' * 256 ^ sz < 256 ^ sz" using Cons.prems(4) v by linarith
  have c0: "c' = 0"
  proof (rule ccontr)
    assume "c' \<noteq> 0"
    then have "256 ^ sz \<le> c' * 256 ^ sz + val 256 P'" by (rule le_mult_nonzero)
    with lt show False by simp
  qed
  have v2: "val 256 P' = ?B * val 256 b + unat x" using v c0 by simp
  have pre: "val 256 P' * ?B ^ length rest + val ?B rest < 256 ^ sz"
    using Cons.prems(4) unfolding tot v2 .
  have rest: "\<forall>d\<in>set rest. unat d < ?B" using Cons.prems(3) by simp
  from Cons.IH [OF l' z' rest pre]
  obtain len' b' where
    "decode_loop c sz (map (\<lambda>d. ALPHABET c ! unat d) rest) n P' = Inr (Some (len', b'))"
    "length b' = sz" "\<forall>j < sz. j + len' < sz \<longrightarrow> b' ! j = 0"
    "val 256 b' = val 256 P' * ?B ^ length rest + val ?B rest"
    by blast
  then show ?case using r c0 tot v2 dg(1,2) un by (simp add: Let_def)
qed

lemma enc_size_enough:
  assumes "2 \<le> B"
  shows "256 ^ n < B ^ enc_size B n"
  unfolding enc_size_def using floorlog_bounds [of "256 ^ n" B] assms by simp

lemma dec_size_enough:
  assumes "0 < B"
  shows "B ^ n < 256 ^ dec_size B n"
  unfolding dec_size_def using floorlog_bounds [of "B ^ n" 256] assms by simp

lemma val_bytes_bound: "val 256 bs < 256 ^ length bs"
  using unat_byte by (intro val_bound) blast

lemma replicate_zero_prefix: "\<forall>j < sz. j + 0 < sz \<longrightarrow> replicate sz (0::byte) ! j = 0"
  by simp

lemma canonical_dropWhile: "dropWhile (\<lambda>x. x = 0) b = [] \<or> hd (dropWhile (\<lambda>x. x = 0) b) \<noteq> (0::byte)"
  using hd_dropWhile [of "\<lambda>x. x = 0" b] by blast

lemma encode_spec:
  assumes wf: "wf_base_x c" and B: "2 \<le> BASE c"
  shows "\<exists>ds. encode c bs = Inr (replicate (length (takeWhile (\<lambda>x. x = 0) bs)) (ALPHABET c ! 0)
                                   @ map (\<lambda>d. ALPHABET c ! unat d) ds) \<and>
           (\<forall>d\<in>set ds. unat d < BASE c) \<and> (ds = [] \<or> hd ds \<noteq> 0) \<and>
           val (BASE c) ds = val 256 (dropWhile (\<lambda>x. x = 0) bs)"
proof (cases "bs = []")
  case True
  then show ?thesis by (simp add: encode_def)
next
  case False
  let ?B = "BASE c"
  let ?z = "length (takeWhile (\<lambda>x. x = 0) bs)"
  let ?rest = "drop ?z bs"
  let ?sz = "enc_size ?B (length bs - ?z)"
  have B256: "?B \<le> 256" using wf by (simp add: wf_base_x_def)
  have rest: "?rest = dropWhile (\<lambda>x. x = 0) bs" by (simp add: dropWhile_eq_drop)
  have "val 256 ?rest < 256 ^ length ?rest" by (rule val_bytes_bound)
  also have "\<dots> < ?B ^ ?sz" using enc_size_enough [OF B] by simp
  finally have pre: "val ?B (replicate ?sz 0) * 256 ^ length ?rest + val 256 ?rest < ?B ^ ?sz"
    by (simp add: val_zero)
  have dig0: "\<forall>x\<in>set (replicate ?sz (0::byte)). unat x < ?B" using B by simp
  from encode_loop_spec [OF B B256 _ dig0 replicate_zero_prefix pre]
  obtain len' b' where r: "encode_loop ?B ?sz ?rest 0 (replicate ?sz 0) = Inr (len', b')"
    and l': "length b' = ?sz" and dig: "\<forall>x\<in>set b'. unat x < ?B"
    and z': "\<forall>j < ?sz. j + len' < ?sz \<longrightarrow> b' ! j = 0"
    and v: "val ?B b' = val 256 ?rest"
    by (auto simp: val_zero)
  define ds where "ds = dropWhile (\<lambda>d. d = 0) b'"
  have strip: "dropWhile (\<lambda>d. d = 0) (drop (?sz - len') b') = ds"
    unfolding ds_def using strip_zero_prefix [of b' len'] z' l' by simp
  have dds: "\<forall>d\<in>set ds. unat d < ?B"
    using dig set_dropWhileD unfolding ds_def by fast
  have can: "ds = [] \<or> hd ds \<noteq> 0" unfolding ds_def by (rule canonical_dropWhile)
  have vds: "val ?B ds = val 256 (dropWhile (\<lambda>x. x = 0) bs)"
    unfolding ds_def val_dropWhile_zero v rest ..
  have lead: "concat (replicate ?z (LEADER c)) = replicate ?z (ALPHABET c ! 0)"
    using wf by (simp add: wf_base_x_def)
  have "\<And>d. d \<in> set ds \<Longrightarrow> charAt (ALPHABET c) (unat d) = [ALPHABET c ! unat d]"
    using dds wf by (simp add: charAt_def wf_base_x_def)
  then have chars: "concat (map (\<lambda>d. charAt (ALPHABET c) (unat d)) ds) = map (\<lambda>d. ALPHABET c ! unat d) ds"
    by (induction ds) auto
  have "encode c bs = Inr (replicate ?z (ALPHABET c ! 0) @ map (\<lambda>d. ALPHABET c ! unat d) ds)"
    using False r by (simp add: encode_def Let_def strip lead chars)
  then show ?thesis using dds can vds by blast
qed


lemma decodeUnsafe_spec:
  assumes wf: "wf_base_x c" and dds: "\<forall>d\<in>set ds. unat d < BASE c"
    and can: "ds = [] \<or> hd ds \<noteq> 0"
  shows "\<exists>ys. decodeUnsafe c (replicate z (ALPHABET c ! 0) @ map (\<lambda>d. ALPHABET c ! unat d) ds)
             = Inr (Some (replicate z 0 @ ys)) \<and>
           (ys = [] \<or> hd ys \<noteq> 0) \<and> val 256 ys = val (BASE c) ds"
proof -
  let ?A = "ALPHABET c"
  let ?B = "BASE c"
  let ?f = "\<lambda>d::byte. ?A ! unat d"
  let ?s = "replicate z (?A ! 0) @ map ?f ds"
  let ?P = "\<lambda>x. [x] = LEADER c"
  show ?thesis
  proof (cases "?s = []")
    case True
    then have "decodeUnsafe c ?s = Inr (Some (replicate z 0 @ []))" "ds = []"
      by (simp_all add: decodeUnsafe_def)
    then show ?thesis by auto
  next
    case False
    have L: "LEADER c = [?A ! 0]" and dist: "distinct ?A" and A: "0 < length ?A"
      and BA: "?B = length ?A"
      using wf by (auto simp: wf_base_x_def)
    have tw0: "takeWhile ?P (map ?f ds) = []"
    proof (cases ds)
      case Nil
      then show ?thesis by simp
    next
      case (Cons d r)
      then have "d \<noteq> 0" "unat d < length ?A" using can dds BA by auto
      then have "unat d \<noteq> 0" by (simp add: unat_eq_0)
      then have "?A ! unat d \<noteq> ?A ! 0"
        using dist A \<open>unat d < length ?A\<close> by (simp add: nth_eq_iff_index_eq)
      then show ?thesis using Cons L by simp
    qed
    have "takeWhile ?P ?s = replicate z (?A ! 0) @ takeWhile ?P (map ?f ds)"
      by (rule takeWhile_append2) (simp add: L)
    then have tw: "takeWhile ?P ?s = replicate z (?A ! 0)" using tw0 by simp
    let ?sz = "dec_size ?B (length ds)"
    have B0: "0 < ?B" using BA A by simp
    have "val ?B ds < ?B ^ length ds" using dds by (rule val_bound)
    also have "\<dots> < 256 ^ ?sz" using B0 by (rule dec_size_enough)
    finally have pre: "val 256 (replicate ?sz 0) * ?B ^ length ds + val ?B ds < 256 ^ ?sz"
      by (simp add: val_zero)
    from decode_loop_spec [OF wf _ replicate_zero_prefix dds pre]
    obtain len' b' where r: "decode_loop c ?sz (map ?f ds) 0 (replicate ?sz 0) = Inr (Some (len', b'))"
      and l': "length b' = ?sz"
      and z': "\<forall>j < ?sz. j + len' < ?sz \<longrightarrow> b' ! j = 0"
      and v: "val 256 b' = val ?B ds"
      by (auto simp: val_zero)
    define ys where "ys = dropWhile (\<lambda>d. d = 0) b'"
    have strip: "dropWhile (\<lambda>d. d = 0) (drop (?sz - len') b') = ys"
      unfolding ys_def using strip_zero_prefix [of b' len'] z' l' by simp
    have cany: "ys = [] \<or> hd ys \<noteq> 0" unfolding ys_def by (rule canonical_dropWhile)
    have vy: "val 256 ys = val ?B ds" unfolding ys_def val_dropWhile_zero v ..
    have "decodeUnsafe c ?s = Inr (Some (replicate z 0 @ ys))"
      using False r unfolding decodeUnsafe_def Let_def tw
      by (auto simp: strip)
    then show ?thesis using cany vy by blast
  qed
qed

lemma takeWhile_zero_replicate:
  "takeWhile (\<lambda>x. x = a) xs = replicate (length (takeWhile (\<lambda>x. x = a) xs)) a"
  by (induction xs) auto

lemma bs58_roundtrip:
  assumes wf: "wf_base_x c" and B: "2 \<le> BASE c"
  shows "\<exists>s. encode c bs = Inr s \<and> decodeUnsafe c s = Inr (Some bs)"
proof -
  let ?z = "length (takeWhile (\<lambda>x. x = 0) bs)"
  from encode_spec [OF wf B, of bs]
  obtain ds where e: "encode c bs = Inr (replicate ?z (ALPHABET c ! 0) @ map (\<lambda>d. ALPHABET c ! unat d) ds)"
    and dds: "\<forall>d\<in>set ds. unat d < BASE c" and can: "ds = [] \<or> hd ds \<noteq> 0"
    and v: "val (BASE c) ds = val 256 (dropWhile (\<lambda>x. x = 0) bs)"
    by blast
  from decodeUnsafe_spec [OF wf dds can, of ?z]
  obtain ys where d: "decodeUnsafe c (replicate ?z (ALPHABET c ! 0) @ map (\<lambda>d. ALPHABET c ! unat d) ds)
        = Inr (Some (replicate ?z 0 @ ys))"
    and cany: "ys = [] \<or> hd ys \<noteq> 0" and vy: "val 256 ys = val (BASE c) ds"
    by blast
  have "ys = dropWhile (\<lambda>x. x = 0) bs"
  proof (rule canonical_unique [of 256])
    show "\<forall>x\<in>set ys. unat x < 256" using unat_byte by blast
    show "\<forall>y\<in>set (dropWhile (\<lambda>x. x = 0) bs). unat y < 256" using unat_byte by blast
    show "val 256 ys = val 256 (dropWhile (\<lambda>x. x = 0) bs)" using vy v by simp
    show "ys = [] \<or> hd ys \<noteq> 0" by (rule cany)
    show "dropWhile (\<lambda>x. x = 0) bs = [] \<or> hd (dropWhile (\<lambda>x. x = 0) bs) \<noteq> 0"
      by (rule canonical_dropWhile)
  qed simp
  moreover have "replicate ?z 0 @ dropWhile (\<lambda>x. x = 0) bs = bs"
    using takeWhile_zero_replicate [of 0 bs, symmetric] by simp
  ultimately show ?thesis using e d by simp
qed

lemma createEncoder_default: "createEncoder [] = Inr bs58_default"
  by code_simp

lemma floorlog_less: "0 < x \<Longrightarrow> x < b \<Longrightarrow> floorlog b x = 1"
  using compute_floorlog [of b x] compute_floorlog [of b 0] by simp

section \<open>The radix codec: round trip, leading zeroes, invalid characters\<close>

text \<open>
  C1, as amended. For every alphabet \<^verbatim>\<open>createEncoder\<close> accepts that has at least two
  symbols, and every byte sequence \<open>b\<close> (empty, all zero and with leading zero bytes
  included), \<^verbatim>\<open>encode\<close> returns a string and \<^verbatim>\<open>decode\<close> of that string returns \<open>b\<close>.
  The default 58-symbol dictionary is such an alphabet.
\<close>

theorem C1_roundtrip:
  assumes "createEncoder A = Inr c" and "2 \<le> BASE c"
  shows "\<exists>s. encode c b = Inr s \<and> decode c s = Inr b"
proof -
  have "wf_base_x c" using assms(1) by (rule createEncoder_wf)
  from bs58_roundtrip [OF this assms(2), of b]
  show ?thesis by (auto simp: decode_def)
qed

theorem C1_roundtrip_witness:
  "createEncoder [] = Inr bs58_default \<and> 2 \<le> BASE bs58_default \<and>
   (\<exists>s. encode bs58_default [0, 0, 1, 2, 3] = Inr s \<and> decode bs58_default s = Inr [0, 0, 1, 2, 3])"
proof -
  have b: "2 \<le> BASE bs58_default" by (simp add: bs58_default_def)
  show ?thesis
    using C1_roundtrip [OF createEncoder_default b, of "[0, 0, 1, 2, 3]"] createEncoder_default b
    by simp
qed

text \<open>
  C1 as stated, for any valid alphabet, fails for an alphabet of one symbol: the encoder
  is built, and \<^verbatim>\<open>encode\<close> of the single byte 1 throws "Non-zero carry".
\<close>

theorem C1_one_symbol_counterexample:
  "createEncoder (js ''a'') = Inr unary_codec \<and> encode unary_codec [1] = Inl NonZeroCarry"
  by (simp add: createEncoder_def js_def unary_codec_def charAt_def encode_def enc_size_def
      floorlog_def u32_def Let_def)

text \<open>
  C3, as amended. For an alphabet \<^verbatim>\<open>createEncoder\<close> accepts that has at least two
  symbols, a byte sequence with exactly \<open>k\<close> leading zero bytes followed by a nonzero
  byte is encoded to a string that begins with \<open>k\<close> copies of the leader and whose next
  symbol, which exists, is not the leader.
\<close>

theorem C3_leading_zeroes:
  assumes "createEncoder A = Inr c" and "2 \<le> BASE c" and "x \<noteq> 0"
  shows "\<exists>s. encode c (replicate k 0 @ x # rest) = Inr s \<and>
           take k s = concat (replicate k (LEADER c)) \<and> k < length s \<and> [s ! k] \<noteq> LEADER c"
proof -
  let ?bs = "replicate k 0 @ x # rest"
  let ?A = "ALPHABET c"
  have wf: "wf_base_x c" using assms(1) by (rule createEncoder_wf)
  have tw: "takeWhile (\<lambda>x. x = 0) ?bs = replicate k 0"
    using assms(3) by (induction k) auto
  have dw: "dropWhile (\<lambda>x. x = 0) ?bs = x # rest"
    using assms(3) by (induction k) auto
  from encode_spec [OF wf assms(2), of ?bs]
  obtain ds where e: "encode c ?bs = Inr (replicate k (?A ! 0) @ map (\<lambda>d. ?A ! unat d) ds)"
    and dds: "\<forall>d\<in>set ds. unat d < BASE c" and can: "ds = [] \<or> hd ds \<noteq> 0"
    and v: "val (BASE c) ds = val 256 (x # rest)"
    unfolding tw dw by auto
  have "256 ^ (length (x # rest) - 1) \<le> val 256 (x # rest)"
    using assms(3) by (intro canonical_lower) auto
  moreover have "(0::nat) < 256 ^ (length (x # rest) - 1)" by simp
  ultimately have "0 < val 256 (x # rest)" by linarith
  then have "val (BASE c) ds \<noteq> 0" using v by simp
  then have "ds \<noteq> []" by auto
  then obtain d r where ds: "ds = d # r" by (cases ds) auto
  then have "d \<noteq> 0" "unat d < length ?A" using can dds wf by (auto simp: wf_base_x_def)
  then have "unat d \<noteq> 0" by (simp add: unat_eq_0)
  then have ne: "?A ! unat d \<noteq> ?A ! 0"
    using wf \<open>unat d < length ?A\<close> by (simp add: wf_base_x_def nth_eq_iff_index_eq)
  have L: "LEADER c = [?A ! 0]" using wf by (simp add: wf_base_x_def)
  show ?thesis
    using e ne by (simp add: L ds nth_append)
qed

theorem C3_leading_zeroes_witness:
  "createEncoder [] = Inr bs58_default \<and> 2 \<le> BASE bs58_default \<and> (1::byte) \<noteq> 0 \<and>
   (\<exists>s. encode bs58_default (replicate 2 0 @ 1 # [2, 3]) = Inr s \<and>
        take 2 s = concat (replicate 2 (LEADER bs58_default)) \<and> 2 < length s \<and>
        [s ! 2] \<noteq> LEADER bs58_default)"
proof -
  have b: "2 \<le> BASE bs58_default" by (simp add: bs58_default_def)
  have x: "(1::byte) \<noteq> 0" by simp
  show ?thesis
    using C3_leading_zeroes [OF createEncoder_default b x, of 2 "[2, 3]"] createEncoder_default b
    by simp
qed

text \<open>
  C3 as stated fails for an alphabet of one symbol: one zero byte followed by the byte 1
  is not encoded at all, \<^verbatim>\<open>encode\<close> throws "Non-zero carry".
\<close>

theorem C3_one_symbol_counterexample:
  "createEncoder (js ''a'') = Inr unary_codec \<and> (1::byte) \<noteq> 0 \<and>
   encode unary_codec (replicate 1 0 @ 1 # []) = Inl NonZeroCarry"
  by (simp add: createEncoder_def js_def unary_codec_def charAt_def encode_def enc_size_def
      floorlog_def u32_def Let_def)

text \<open>
  C8 fails on the code for a string holding a code unit above 255. The default
  dictionary does not contain the euro sign U+20AC, yet \<^verbatim>\<open>decodeUnsafe\<close> of the
  one-unit string returns an (empty) array instead of nothing, and \<^verbatim>\<open>decode\<close> returns
  it instead of throwing.
\<close>

theorem C8_code_unit_beyond_table:
  "createEncoder [] = Inr bs58_default \<and> 0x20AC \<notin> set (ALPHABET bs58_default) \<and>
   decodeUnsafe bs58_default [0x20AC] = Inr (Some []) \<and>
   decode bs58_default [0x20AC] = Inr []"
proof -
  have "length (BASE_MAP bs58_default) = 256" by (simp add: bs58_default_def BASE58_MAP_def)
  moreover have "dec_size 58 1 = 1" by (simp add: dec_size_def floorlog_less)
  moreover have "0x20AC \<notin> set (ALPHABET bs58_default)"
    by (simp add: bs58_default_def BASE58_def js_def)
  moreover have "BASE bs58_default = 58" "LEADER bs58_default = js ''1''"
    by (simp_all add: bs58_default_def)
  ultimately show ?thesis
    using createEncoder_default by (simp add: decode_def decodeUnsafe_def js_def)
qed

section \<open>The key codec: decoding and configuration errors\<close>

lemma createEncoder_BASE58: "createEncoder BASE58 = Inr bs58_default"
  using createEncoder_default BASE58_nonempty by (simp add: createEncoder_def)

lemma create_default: "create zero_digest None = Inr dash_mainnet"
  by (simp add: create_def or_else_def createEncoder_BASE58 dash_mainnet_def)

lemma or_else_nonempty: "d \<noteq> [] \<Longrightarrow> or_else v d \<noteq> []"
  by (simp add: or_else_def split: option.splits)

lemma js_nonempty: "s \<noteq> [] \<Longrightarrow> js s \<noteq> []"
  by (simp add: js_def)

lemma create_spec:
  assumes "create digest opts = Inr cfg"
  shows "wf_base_x (bs58 cfg)" and "pubKeyHashVersion cfg \<noteq> []" and "privateKeyVersion cfg \<noteq> []"
    and "xpubVersion cfg \<noteq> []" and "xprvVersion cfg \<noteq> []" and "sha256sum cfg = digest"
proof -
  from assms obtain enc where
    e: "createEncoder (or_else (Option.bind opts opt_dictionary) BASE58) = Inr enc"
    and c: "cfg = \<lparr>pubKeyHashVersion = or_else (Option.bind opts opt_pubKeyHashVersion) (js ''4c''),
        privateKeyVersion = or_else (Option.bind opts opt_privateKeyVersion) (js ''cc''),
        xpubVersion = or_else (Option.bind opts opt_xpubVersion) (js ''0488b21e''),
        xprvVersion = or_else (Option.bind opts opt_xprvVersion) (js ''0488ade4''),
        bs58 = enc, sha256sum = digest\<rparr>"
    by (auto simp: create_def Let_def split: sum.splits)
  show "wf_base_x (bs58 cfg)" using createEncoder_wf [OF e] by (simp add: c)
  show "pubKeyHashVersion cfg \<noteq> []" "privateKeyVersion cfg \<noteq> []"
    "xpubVersion cfg \<noteq> []" "xprvVersion cfg \<noteq> []" "sha256sum cfg = digest"
    by (simp_all add: c or_else_nonempty js_nonempty)
qed

text \<open>
  C4. \<^verbatim>\<open>decodeHex\<close> throws "expected pubKeyHash (or privateKey) to start with ..." for
  every input whose leading units, as many as the private-key version has, are neither
  1-byte version, and whose leading units, as many as the xprv version has, are neither
  extended-key version. When the 1-byte prefix matches, it throws "isn't as long as
  expected" for every length other than 50, 74 and 76 hex characters. An input that
  matches an extended-key version only is decoded whatever its length. \<^verbatim>\<open>decode\<close> is
  \<^verbatim>\<open>decodeHex\<close> on the hex form of the radix-decoded bytes, two characters per byte, so
  these lengths are 25, 37 and 38 bytes.
\<close>

theorem C4_decodeHex_rejects:
  "(take (length (privateKeyVersion cfg)) addr \<notin> {pubKeyHashVersion cfg, privateKeyVersion cfg} \<and>
    take (length (xprvVersion cfg)) addr \<notin> {xpubVersion cfg, xprvVersion cfg}
      \<longrightarrow> b58c_decodeHex cfg addr
            = Inl (UnexpectedVersion (take (length (privateKeyVersion cfg)) addr))) \<and>
   (take (length (privateKeyVersion cfg)) addr \<in> {pubKeyHashVersion cfg, privateKeyVersion cfg} \<and>
    length addr \<notin> {50, 74, 76}
      \<longrightarrow> b58c_decodeHex cfg addr = Inl (NotAsLongAsExpected (length addr))) \<and>
   (take (length (privateKeyVersion cfg)) addr \<notin> {pubKeyHashVersion cfg, privateKeyVersion cfg} \<and>
    take (length (xprvVersion cfg)) addr \<in> {xpubVersion cfg, xprvVersion cfg}
      \<longrightarrow> (\<exists>r. b58c_decodeHex cfg addr = Inr r)) \<and>
   (decode (bs58 cfg) b58Addr = Inr u8
      \<longrightarrow> b58c_decode cfg b58Addr = b58c_decodeHex cfg (uint8ArrayToHex u8) \<and>
          length (uint8ArrayToHex u8) = 2 * length u8)"
proof -
  have len: "length (uint8ArrayToHex u) = 2 * length u" for u
    by (induction u) (auto simp: uint8ArrayToHex_def padStart_def toString16_def)
  show ?thesis
    by (auto simp: b58c_decodeHex_def b58c_decode_def Let_def len)
qed

text \<open>
  C10. Every hex input of exactly 50 characters whose prefix matches one of the four
  configured versions is returned as a record with \<^verbatim>\<open>pubKeyHash\<close> set (to the part
  between the version and the last eight characters), also when the version is the
  private-key or an extended-key one; no other payload field is set.
\<close>

theorem C10_fifty_is_pubKeyHash:
  assumes "length addr = 50"
    and "take (length (privateKeyVersion cfg)) addr \<in> {pubKeyHashVersion cfg, privateKeyVersion cfg}
       \<or> take (length (xprvVersion cfg)) addr \<in> {xpubVersion cfg, xprvVersion cfg}"
  shows "\<exists>v. b58c_decodeHex cfg addr
           = Inr (no_parts\<lparr>version := Some v, pubKeyHash := Some (drop (length v) (take 42 addr)),
                           check := Some (drop 42 addr)\<rparr>) \<and>
             v = (if take (length (privateKeyVersion cfg)) addr
                      \<in> {pubKeyHashVersion cfg, privateKeyVersion cfg}
                  then take (length (privateKeyVersion cfg)) addr
                  else take (length (xprvVersion cfg)) addr)"
  using assms by (auto simp: b58c_decodeHex_def Let_def)

theorem C4_decodeHex_rejects_witness:
  "(take (length (privateKeyVersion dash_mainnet)) (js ''00'')
      \<notin> {pubKeyHashVersion dash_mainnet, privateKeyVersion dash_mainnet} \<and>
    take (length (xprvVersion dash_mainnet)) (js ''00'')
      \<notin> {xpubVersion dash_mainnet, xprvVersion dash_mainnet} \<and>
    b58c_decodeHex dash_mainnet (js ''00'') = Inl (UnexpectedVersion (js ''00''))) \<and>
   (take (length (privateKeyVersion dash_mainnet)) (js ''4c00'')
      \<in> {pubKeyHashVersion dash_mainnet, privateKeyVersion dash_mainnet} \<and>
    length (js ''4c00'') \<notin> {50, 74, 76} \<and>
    b58c_decodeHex dash_mainnet (js ''4c00'') = Inl (NotAsLongAsExpected 4)) \<and>
   (take (length (privateKeyVersion dash_mainnet)) (js ''0488ade400'')
      \<notin> {pubKeyHashVersion dash_mainnet, privateKeyVersion dash_mainnet} \<and>
    take (length (xprvVersion dash_mainnet)) (js ''0488ade400'')
      \<in> {xpubVersion dash_mainnet, xprvVersion dash_mainnet} \<and>
    (\<exists>r. b58c_decodeHex dash_mainnet (js ''0488ade400'') = Inr r)) \<and>
   (decode (bs58 dash_mainnet) [] = Inr [] \<and>
    b58c_decode dash_mainnet [] = b58c_decodeHex dash_mainnet (uint8ArrayToHex []))"
proof -
  have h1: "take (length (privateKeyVersion dash_mainnet)) (js ''00'')
      \<notin> {pubKeyHashVersion dash_mainnet, privateKeyVersion dash_mainnet} \<and>
    take (length (xprvVersion dash_mainnet)) (js ''00'')
      \<notin> {xpubVersion dash_mainnet, xprvVersion dash_mainnet}"
    by (simp add: dash_mainnet_def js_def)
  have h2: "take (length (privateKeyVersion dash_mainnet)) (js ''4c00'')
      \<in> {pubKeyHashVersion dash_mainnet, privateKeyVersion dash_mainnet} \<and>
    length (js ''4c00'') \<notin> {50, 74, 76}"
    by (simp add: dash_mainnet_def js_def)
  have h3: "take (length (privateKeyVersion dash_mainnet)) (js ''0488ade400'')
      \<notin> {pubKeyHashVersion dash_mainnet, privateKeyVersion dash_mainnet} \<and>
    take (length (xprvVersion dash_mainnet)) (js ''0488ade400'')
      \<in> {xpubVersion dash_mainnet, xprvVersion dash_mainnet}"
    by (simp add: dash_mainnet_def js_def)
  have h4: "decode (bs58 dash_mainnet) [] = Inr []"
    by (simp add: decode_def decodeUnsafe_def)
  have l1: "take (length (privateKeyVersion dash_mainnet)) (js ''00'') = js ''00''"
    and l2: "length (js ''4c00'') = 4"
    by (simp_all add: dash_mainnet_def js_def)
  have c1: "b58c_decodeHex dash_mainnet (js ''00'') = Inl (UnexpectedVersion (js ''00''))"
    using C4_decodeHex_rejects [of dash_mainnet "js ''00''" "[]" "[]", THEN conjunct1] h1
    unfolding l1 by (rule mp)
  have c2: "b58c_decodeHex dash_mainnet (js ''4c00'') = Inl (NotAsLongAsExpected 4)"
    using C4_decodeHex_rejects [of dash_mainnet "js ''4c00''" "[]" "[]",
        THEN conjunct2, THEN conjunct1] h2
    unfolding l2 by (rule mp)
  have c3: "\<exists>r. b58c_decodeHex dash_mainnet (js ''0488ade400'') = Inr r"
    using C4_decodeHex_rejects [of dash_mainnet "js ''0488ade400''" "[]" "[]",
        THEN conjunct2, THEN conjunct2, THEN conjunct1] h3
    by (rule mp)
  have c4: "b58c_decode dash_mainnet [] = b58c_decodeHex dash_mainnet (uint8ArrayToHex [])"
    using C4_decodeHex_rejects [of dash_mainnet "[]" "[]" "[]",
        THEN conjunct2, THEN conjunct2, THEN conjunct2] h4
    by blast
  show ?thesis
    using h1 h2 h3 h4 c1 c2 c3 c4 by (intro conjI) (erule conjunct1 conjunct2 | assumption)+
qed

theorem C10_fifty_is_pubKeyHash_witness:
  "length (js ''cc'' @ replicate 48 0x30) = 50 \<and>
   (take (length (privateKeyVersion dash_mainnet)) (js ''cc'' @ replicate 48 0x30)
      \<in> {pubKeyHashVersion dash_mainnet, privateKeyVersion dash_mainnet}
    \<or> take (length (xprvVersion dash_mainnet)) (js ''cc'' @ replicate 48 0x30)
      \<in> {xpubVersion dash_mainnet, xprvVersion dash_mainnet}) \<and>
   b58c_decodeHex dash_mainnet (js ''cc'' @ replicate 48 0x30)
     = Inr (no_parts\<lparr>version := Some (js ''cc''), pubKeyHash := Some (replicate 40 0x30),
                     check := Some (replicate 8 0x30)\<rparr>)"
proof -
  let ?addr = "js ''cc'' @ replicate 48 0x30"
  have l: "length ?addr = 50" by (simp add: js_def)
  have t: "take (length (privateKeyVersion dash_mainnet)) ?addr = js ''cc''"
    by (simp add: dash_mainnet_def js_def)
  have h: "take (length (privateKeyVersion dash_mainnet)) ?addr
      \<in> {pubKeyHashVersion dash_mainnet, privateKeyVersion dash_mainnet}
    \<or> take (length (xprvVersion dash_mainnet)) ?addr
      \<in> {xpubVersion dash_mainnet, xprvVersion dash_mainnet}"
    unfolding t by (simp add: dash_mainnet_def)
  have v: "js ''cc'' \<in> {pubKeyHashVersion dash_mainnet, privateKeyVersion dash_mainnet}"
    by (simp add: dash_mainnet_def)
  have d1: "drop (length (js ''cc'')) (take 42 ?addr) = replicate 40 0x30"
    and d2: "drop 42 ?addr = replicate 8 0x30"
    by (simp_all add: js_def)
  show ?thesis
    using C10_fifty_is_pubKeyHash [OF l h] l h v unfolding t by (simp add: d1 d2)
qed

lemma truthy_Some [simp]: "truthy (Some s) \<longleftrightarrow> s \<noteq> []"
  by (simp add: truthy_def)

lemma truthy_None [simp]: "\<not> truthy None"
  by (simp add: truthy_def)

lemma template_Some [simp]: "template (Some s) = s"
  by (simp add: template_def)

text \<open>
  C7, as amended. For a record without \<^verbatim>\<open>xprv\<close> and \<^verbatim>\<open>xpub\<close>, \<^verbatim>\<open>encode\<close> throws
  "either 'privateKey' or 'pubKeyHash' must exist to encode" when neither key is there,
  "... must exist, but not both" when both are there and \<^verbatim>\<open>pubKeyHash\<close> has 40
  characters (the length error comes first otherwise), "is a public version, but the
  given key is private" for a private key of legal length declared with the pubKeyHash
  version, and "is a private version, but the given key is a pubKeyHash" for a
  40-character pubKeyHash declared with the private-key version.
\<close>

theorem C7_encode_configuration_errors:
  assumes "\<not> truthy (xprv p)" and "\<not> truthy (xpub p)"
  shows
   "(\<not> truthy (pubKeyHash p) \<and> \<not> truthy (privateKey p)
       \<longrightarrow> fst (b58c_encode cfg p) = Inl MustExistToEncode) \<and>
    (truthy (privateKey p) \<and> pubKeyHash p = Some h \<and> h \<noteq> []
       \<longrightarrow> fst (b58c_encode cfg p)
             = Inl (if length h = 40 then EitherButNotBoth else InvalidPubKeyHashLength (length h))) \<and>
    (\<not> truthy (pubKeyHash p) \<and> privateKey p = Some k \<and>
     (length k = 64 \<or> length k = 66 \<and> drop 64 k = js ''01'') \<and>
     version p = Some (pubKeyHashVersion cfg) \<and> pubKeyHashVersion cfg \<noteq> []
       \<longrightarrow> fst (b58c_encode cfg p) = Inl (PublicVersionPrivateKey (pubKeyHashVersion cfg))) \<and>
    (\<not> truthy (privateKey p) \<and> pubKeyHash p = Some h \<and> length h = 40 \<and>
     version p = Some (privateKeyVersion cfg) \<and> privateKeyVersion cfg \<noteq> []
       \<longrightarrow> fst (b58c_encode cfg p) = Inl (PrivateVersionPubKeyHash (privateKeyVersion cfg)))"
proof (intro conjI impI)
  assume "\<not> truthy (pubKeyHash p) \<and> \<not> truthy (privateKey p)"
  then show "fst (b58c_encode cfg p) = Inl MustExistToEncode"
    using assms by (simp add: b58c_encode_def b58c_encodeHex_def)
next
  assume "truthy (privateKey p) \<and> pubKeyHash p = Some h \<and> h \<noteq> []"
  then show "fst (b58c_encode cfg p)
      = Inl (if length h = 40 then EitherButNotBoth else InvalidPubKeyHashLength (length h))"
    using assms
    by (simp add: b58c_encode_def b58c_encodeHex_def b58c_encodePubKeyHashHex_def
        b58c_setVersion_def)
next
  assume a: "\<not> truthy (pubKeyHash p) \<and> privateKey p = Some k \<and>
     (length k = 64 \<or> length k = 66 \<and> drop 64 k = js ''01'') \<and>
     version p = Some (pubKeyHashVersion cfg) \<and> pubKeyHashVersion cfg \<noteq> []"
  then have k: "k \<noteq> []" by auto
  show "fst (b58c_encode cfg p) = Inl (PublicVersionPrivateKey (pubKeyHashVersion cfg))"
    using assms a k
    by (auto simp: b58c_encode_def b58c_encodeHex_def b58c_encodePrivateKeyHex_def
        b58c_setVersion_def Let_def)
next
  assume a: "\<not> truthy (privateKey p) \<and> pubKeyHash p = Some h \<and> length h = 40 \<and>
     version p = Some (privateKeyVersion cfg) \<and> privateKeyVersion cfg \<noteq> []"
  then have h: "h \<noteq> []" by auto
  show "fst (b58c_encode cfg p) = Inl (PrivateVersionPubKeyHash (privateKeyVersion cfg))"
    using assms a h
    by (auto simp: b58c_encode_def b58c_encodeHex_def b58c_encodePubKeyHashHex_def
        b58c_setVersion_def Let_def)
qed

theorem C7_encode_configuration_errors_witness:
  "(\<not> truthy (xprv no_parts) \<and> \<not> truthy (xpub no_parts) \<and>
    \<not> truthy (pubKeyHash no_parts) \<and> \<not> truthy (privateKey no_parts) \<and>
    fst (b58c_encode dash_mainnet no_parts) = Inl MustExistToEncode) \<and>
   (\<not> truthy (xprv (sample_pkh\<lparr>privateKey := Some (replicate 64 0x30)\<rparr>)) \<and>
    \<not> truthy (xpub (sample_pkh\<lparr>privateKey := Some (replicate 64 0x30)\<rparr>)) \<and>
    truthy (privateKey (sample_pkh\<lparr>privateKey := Some (replicate 64 0x30)\<rparr>)) \<and>
    pubKeyHash (sample_pkh\<lparr>privateKey := Some (replicate 64 0x30)\<rparr>) = Some (replicate 40 0x30) \<and>
    replicate 40 (0x30::jschar) \<noteq> [] \<and>
    fst (b58c_encode dash_mainnet (sample_pkh\<lparr>privateKey := Some (replicate 64 0x30)\<rparr>))
      = Inl EitherButNotBoth) \<and>
   (\<not> truthy (xprv (sample_key\<lparr>version := Some (js ''4c'')\<rparr>)) \<and>
    \<not> truthy (xpub (sample_key\<lparr>version := Some (js ''4c'')\<rparr>)) \<and>
    \<not> truthy (pubKeyHash (sample_key\<lparr>version := Some (js ''4c'')\<rparr>)) \<and>
    privateKey (sample_key\<lparr>version := Some (js ''4c'')\<rparr>) = Some (replicate 64 0x30) \<and>
    length (replicate 64 (0x30::jschar)) = 64 \<and>
    version (sample_key\<lparr>version := Some (js ''4c'')\<rparr>) = Some (pubKeyHashVersion dash_mainnet) \<and>
    pubKeyHashVersion dash_mainnet \<noteq> [] \<and>
    fst (b58c_encode dash_mainnet (sample_key\<lparr>version := Some (js ''4c'')\<rparr>))
      = Inl (PublicVersionPrivateKey (js ''4c''))) \<and>
   (\<not> truthy (xprv (sample_pkh\<lparr>version := Some (js ''cc'')\<rparr>)) \<and>
    \<not> truthy (xpub (sample_pkh\<lparr>version := Some (js ''cc'')\<rparr>)) \<and>
    \<not> truthy (privateKey (sample_pkh\<lparr>version := Some (js ''cc'')\<rparr>)) \<and>
    pubKeyHash (sample_pkh\<lparr>version := Some (js ''cc'')\<rparr>) = Some (replicate 40 0x30) \<and>
    length (replicate 40 (0x30::jschar)) = 40 \<and>
    version (sample_pkh\<lparr>version := Some (js ''cc'')\<rparr>) = Some (privateKeyVersion dash_mainnet) \<and>
    privateKeyVersion dash_mainnet \<noteq> [] \<and>
    fst (b58c_encode dash_mainnet (sample_pkh\<lparr>version := Some (js ''cc'')\<rparr>))
      = Inl (PrivateVersionPubKeyHash (js ''cc'')))"
proof -
  let ?p2 = "sample_pkh\<lparr>privateKey := Some (replicate 64 0x30)\<rparr>"
  let ?p3 = "sample_key\<lparr>version := Some (js ''4c'')\<rparr>"
  let ?p4 = "sample_pkh\<lparr>version := Some (js ''cc'')\<rparr>"
  have v: "pubKeyHashVersion dash_mainnet = js ''4c''" "privateKeyVersion dash_mainnet = js ''cc''"
    "js ''4c'' \<noteq> []" "js ''cc'' \<noteq> []"
    by (simp_all add: dash_mainnet_def js_def)
  have x1: "\<not> truthy (xprv no_parts)" "\<not> truthy (xpub no_parts)"
    and x2: "\<not> truthy (xprv ?p2)" "\<not> truthy (xpub ?p2)"
    and x3: "\<not> truthy (xprv ?p3)" "\<not> truthy (xpub ?p3)"
    and x4: "\<not> truthy (xprv ?p4)" "\<not> truthy (xpub ?p4)"
    by (simp_all add: no_parts_def sample_pkh_def sample_key_def)
  have h1: "\<not> truthy (pubKeyHash no_parts) \<and> \<not> truthy (privateKey no_parts)"
    by (simp add: no_parts_def)
  have h2: "truthy (privateKey ?p2) \<and> pubKeyHash ?p2 = Some (replicate 40 0x30) \<and>
      replicate 40 (0x30::jschar) \<noteq> []"
    by (simp add: no_parts_def sample_pkh_def)
  have h3: "\<not> truthy (pubKeyHash ?p3) \<and> privateKey ?p3 = Some (replicate 64 0x30) \<and>
      (length (replicate 64 (0x30::jschar)) = 64 \<or>
       length (replicate 64 (0x30::jschar)) = 66 \<and> drop 64 (replicate 64 (0x30::jschar)) = js ''01'') \<and>
      version ?p3 = Some (pubKeyHashVersion dash_mainnet) \<and> pubKeyHashVersion dash_mainnet \<noteq> []"
    by (simp add: no_parts_def sample_key_def v)
  have h4: "\<not> truthy (privateKey ?p4) \<and> pubKeyHash ?p4 = Some (replicate 40 0x30) \<and>
      length (replicate 40 (0x30::jschar)) = 40 \<and>
      version ?p4 = Some (privateKeyVersion dash_mainnet) \<and> privateKeyVersion dash_mainnet \<noteq> []"
    by (simp add: no_parts_def sample_pkh_def v)
  have c1: "fst (b58c_encode dash_mainnet no_parts) = Inl MustExistToEncode"
    using C7_encode_configuration_errors [OF x1, where cfg = dash_mainnet, THEN conjunct1] h1
    by (rule mp)
  have c2: "fst (b58c_encode dash_mainnet ?p2)
      = Inl (if length (replicate 40 (0x30::jschar)) = 40 then EitherButNotBoth
             else InvalidPubKeyHashLength (length (replicate 40 (0x30::jschar))))"
    using C7_encode_configuration_errors [OF x2, where h = "replicate 40 0x30" and cfg = dash_mainnet,
        THEN conjunct2, THEN conjunct1] h2
    by (rule mp)
  have c3: "fst (b58c_encode dash_mainnet ?p3)
      = Inl (PublicVersionPrivateKey (pubKeyHashVersion dash_mainnet))"
    using C7_encode_configuration_errors [OF x3, where k = "replicate 64 0x30" and cfg = dash_mainnet,
        THEN conjunct2, THEN conjunct2, THEN conjunct1] h3
    by (rule mp)
  have c4: "fst (b58c_encode dash_mainnet ?p4)
      = Inl (PrivateVersionPubKeyHash (privateKeyVersion dash_mainnet))"
    using C7_encode_configuration_errors [OF x4, where h = "replicate 40 0x30" and cfg = dash_mainnet,
        THEN conjunct2, THEN conjunct2, THEN conjunct2] h4
    by (rule mp)
  show ?thesis
    using x1 x2 x3 x4 h1 h2 h3 h4 c1 c2 c3 c4 unfolding v by simp
qed

lemma floorlog_one: "1 < b \<Longrightarrow> floorlog b 1 = 1"
  by (rule floorlog_less) simp_all

lemma encode_zero_bytes: "0 < n \<Longrightarrow> encode bs58_default (replicate n 0) = Inr (replicate n 0x31)"
proof -
  assume n: "0 < n"
  have c: "concat (replicate n [0x31 :: jschar]) = replicate n 0x31"
    by (induction n) auto
  show ?thesis
    using n by (simp add: encode_def bs58_default_def enc_size_def floorlog_one js_def c)
qed

text \<open>
  C7 as stated fails for a record with two payload fields one of which is \<^verbatim>\<open>xprv\<close>:
  \<^verbatim>\<open>encode\<close> takes the extended-key branch first, never looks at \<^verbatim>\<open>pubKeyHash\<close>, and
  returns a string.
\<close>

theorem C7_extended_key_counterexample:
  "truthy (xprv (sample_pkh\<lparr>version := Some (js ''00''), xprv := Some (js ''00'')\<rparr>)) \<and>
   truthy (pubKeyHash (sample_pkh\<lparr>version := Some (js ''00''), xprv := Some (js ''00'')\<rparr>)) \<and>
   fst (b58c_encode dash_mainnet (sample_pkh\<lparr>version := Some (js ''00''), xprv := Some (js ''00'')\<rparr>))
     = Inr (js ''111111'')"
proof -
  have "b58c_checksumHexRaw dash_mainnet (js ''0000'') = js ''00000000''"
    by code_simp
  moreover have "hexToUint8Array (js ''000000000000'') = replicate 6 0"
    by code_simp
  moreover have "js ''00'' @ js ''00'' = js ''0000''"
    "js ''00'' @ js ''00'' @ js ''00000000'' = js ''000000000000''"
    "replicate 6 (0x31 :: jschar) = js ''111111''"
    by (simp_all add: js_def numeral_eq_Suc)
  moreover have "bs58 dash_mainnet = bs58_default" by (simp add: dash_mainnet_def)
  moreover have "js ''00'' \<noteq> []" by (simp add: js_def)
  ultimately show ?thesis
    by (simp add: b58c_encode_def b58c_encodeXKey_def sample_pkh_def no_parts_def or_else_def
        encode_zero_bytes Let_def)
qed

section \<open>The key codec: private keys, written fields, verification\<close>

lemma length_uint8ArrayToHex: "length (uint8ArrayToHex u) = 2 * length u"
  by (induction u) (auto simp: uint8ArrayToHex_def padStart_def toString16_def)

lemma length_checksumHexRaw:
  assumes "\<And>u. 4 \<le> length (sha256sum cfg u)"
  shows "length (b58c_checksumHexRaw cfg hex) = 8"
  using assms [of "sha256sum cfg (hexToUint8Array hex)"]
  by (simp add: b58c_checksumHexRaw_def Let_def length_uint8ArrayToHex)

text \<open>The outcome of \<^verbatim>\<open>_setVersion\<close> on a record that holds a private key only.\<close>

lemma setVersion_private:
  assumes "privateKey p = Some key" "key \<noteq> []" "\<not> truthy (pubKeyHash p)"
    and "truthy (version p) \<longrightarrow> version p \<noteq> Some (pubKeyHashVersion cfg)"
  shows "b58c_setVersion cfg p = (Inr (), p\<lparr>version := Some (or_else (version p) (privateKeyVersion cfg))\<rparr>)"
  using assms
  by (cases "version p") (auto simp: b58c_setVersion_def or_else_def truthy_def)

lemma checksum_private:
  assumes "privateKey p = Some key" "key \<noteq> []" "\<not> truthy (pubKeyHash p)"
    and "version p = Some v" "v \<noteq> []" "v \<noteq> pubKeyHashVersion cfg" "compressed p = Some c"
  shows "b58c_checksum cfg p
     = (Inr (b58c_checksumHexRaw cfg (v @ key @ (if c \<and> 64 = length key then js ''01'' else []))), p)"
  using assms
  by (auto simp: b58c_checksum_def b58c_setVersion_def Let_def truthy_def)

text \<open>
  C5. \<^verbatim>\<open>_encodePrivateKeyHex\<close> on a record with a private key (a hex string), given a
  digest of at least four bytes. A key that has neither 64 characters nor 66 ending in
  \<^verbatim>\<open>01\<close> is refused with the length error. A key of 66 characters ending in \<^verbatim>\<open>01\<close>
  passes the length check and \<^verbatim>\<open>compressed\<close> is set to true. When the record holds
  no pubKeyHash and its version, declared or defaulted, is not the pubKeyHash version,
  the result is version, key and checksum for the 66-character key, and for a
  64-character key it is version, key, \<^verbatim>\<open>01\<close> (\<^verbatim>\<open>compressed\<close> true or unset) or \<^verbatim>\<open>00\<close>
  (\<^verbatim>\<open>compressed\<close> false), and the eight characters of the checksum: the byte before
  the checksum is the marker.
\<close>

theorem C5_encodePrivateKeyHex:
  assumes key: "privateKey p = Some key"
    and digest: "\<And>u. 4 \<le> length (sha256sum cfg u)"
  shows
   "(length key \<noteq> 64 \<and> \<not> (length key = 66 \<and> drop 64 key = js ''01'')
       \<longrightarrow> fst (b58c_encodePrivateKeyHex cfg p)
             = Inl (InvalidPrivateKeyLength (length key) (compressed p \<noteq> Some False))) \<and>
    (length key = 66 \<and> drop 64 key = js ''01''
       \<longrightarrow> compressed (snd (b58c_encodePrivateKeyHex cfg p)) = Some True \<and>
           (\<forall>n b. fst (b58c_encodePrivateKeyHex cfg p) \<noteq> Inl (InvalidPrivateKeyLength n b))) \<and>
    (\<not> truthy (pubKeyHash p) \<and> or_else (version p) (privateKeyVersion cfg) = v \<and> v \<noteq> [] \<and>
     v \<noteq> pubKeyHashVersion cfg
       \<longrightarrow> (length key = 66 \<and> drop 64 key = js ''01''
              \<longrightarrow> b58c_encodePrivateKeyHex cfg p
                    = (Inr (v @ key @ b58c_checksumHexRaw cfg (v @ key)),
                       p\<lparr>version := Some v, compressed := Some True\<rparr>)) \<and>
           (length key = 64
              \<longrightarrow> (\<exists>chk. length chk = 8 \<and>
                    b58c_encodePrivateKeyHex cfg p
                    = (Inr (v @ key @ (if compressed p = Some False then js ''00'' else js ''01'') @ chk),
                       p\<lparr>version := Some v, compressed := Some (compressed p \<noteq> Some False)\<rparr>))))"
proof (intro conjI impI)
  assume "length key \<noteq> 64 \<and> \<not> (length key = 66 \<and> drop 64 key = js ''01'')"
  then show "fst (b58c_encodePrivateKeyHex cfg p)
      = Inl (InvalidPrivateKeyLength (length key) (compressed p \<noteq> Some False))"
    using key by (auto simp: b58c_encodePrivateKeyHex_def Let_def split: option.splits)
next
  assume a: "length key = 66 \<and> drop 64 key = js ''01''"
  then show "compressed (snd (b58c_encodePrivateKeyHex cfg p)) = Some True"
    using key
    by (auto simp: b58c_encodePrivateKeyHex_def b58c_setVersion_def b58c_checksum_def Let_def
        split: option.splits prod.splits sum.splits if_splits)
  show "\<forall>n b. fst (b58c_encodePrivateKeyHex cfg p) \<noteq> Inl (InvalidPrivateKeyLength n b)"
    using key a
    by (auto simp: b58c_encodePrivateKeyHex_def b58c_setVersion_def b58c_checksum_def Let_def
        split: option.splits prod.splits sum.splits if_splits)
next
  assume w: "\<not> truthy (pubKeyHash p) \<and> or_else (version p) (privateKeyVersion cfg) = v \<and> v \<noteq> [] \<and>
     v \<noteq> pubKeyHashVersion cfg"
  assume a: "length key = 66 \<and> drop 64 key = js ''01''"
  let ?p2 = "p\<lparr>compressed := Some True\<rparr>"
  have k: "key \<noteq> []" using a by auto
  have tv: "truthy (version ?p2) \<longrightarrow> version ?p2 \<noteq> Some (pubKeyHashVersion cfg)"
    using w by (auto simp: or_else_def truthy_def split: option.splits if_splits)
  have s: "b58c_setVersion cfg ?p2 = (Inr (), ?p2\<lparr>version := Some v\<rparr>)"
    using setVersion_private [where p = ?p2 and key = key and cfg = cfg] key k w tv by simp
  have c: "b58c_checksum cfg (?p2\<lparr>version := Some v\<rparr>)
      = (Inr (b58c_checksumHexRaw cfg (v @ key @ [])), ?p2\<lparr>version := Some v\<rparr>)"
    using checksum_private [where p = "?p2\<lparr>version := Some v\<rparr>" and key = key and cfg = cfg and v = v and c = True] key k w a by simp
  show "b58c_encodePrivateKeyHex cfg p
      = (Inr (v @ key @ b58c_checksumHexRaw cfg (v @ key)), p\<lparr>version := Some v, compressed := Some True\<rparr>)"
    using key a s c
    by (simp add: b58c_encodePrivateKeyHex_def Let_def)
next
  assume w: "\<not> truthy (pubKeyHash p) \<and> or_else (version p) (privateKeyVersion cfg) = v \<and> v \<noteq> [] \<and>
     v \<noteq> pubKeyHashVersion cfg"
  assume a: "length key = 64"
  define c where "c = (compressed p \<noteq> Some False)"
  let ?p1 = "p\<lparr>compressed := Some c\<rparr>"
  have c1: "(case compressed p of None \<Rightarrow> True | Some b \<Rightarrow> b) = c"
    by (auto simp: c_def split: option.splits)
  have k: "key \<noteq> []" using a by auto
  have not66: "\<not> (66 = length key \<and> js ''01'' = drop (length key - 2) key)" using a by simp
  have tv: "truthy (version ?p1) \<longrightarrow> version ?p1 \<noteq> Some (pubKeyHashVersion cfg)"
    using w by (auto simp: or_else_def truthy_def split: option.splits if_splits)
  have s: "b58c_setVersion cfg ?p1 = (Inr (), ?p1\<lparr>version := Some v\<rparr>)"
    using setVersion_private [where p = ?p1 and key = key and cfg = cfg] key k w tv by simp
  let ?chk = "b58c_checksumHexRaw cfg (v @ key @ (if c \<and> 64 = length key then js ''01'' else []))"
  have ck: "b58c_checksum cfg (?p1\<lparr>version := Some v\<rparr>) = (Inr ?chk, ?p1\<lparr>version := Some v\<rparr>)"
    using checksum_private [where p = "?p1\<lparr>version := Some v\<rparr>" and key = key and cfg = cfg and v = v and c = c] key k w by simp
  have l: "length ?chk = 8" using digest by (rule length_checksumHexRaw)
  have "b58c_encodePrivateKeyHex cfg p
      = (Inr (v @ key @ (if compressed p = Some False then js ''00'' else js ''01'') @ ?chk),
         p\<lparr>version := Some v, compressed := Some (compressed p \<noteq> Some False)\<rparr>)"
    using key a s ck not66 unfolding b58c_encodePrivateKeyHex_def Let_def c1
    by (auto simp: c_def)
  then show "\<exists>chk. length chk = 8 \<and>
      b58c_encodePrivateKeyHex cfg p
      = (Inr (v @ key @ (if compressed p = Some False then js ''00'' else js ''01'') @ chk),
         p\<lparr>version := Some v, compressed := Some (compressed p \<noteq> Some False)\<rparr>)"
    using l by blast
qed

lemma dash_mainnet_digest: "4 \<le> length (sha256sum dash_mainnet u)"
  by (simp add: dash_mainnet_def zero_digest_def)

theorem C5_encodePrivateKeyHex_witness:
  "(\<forall>u. 4 \<le> length (sha256sum dash_mainnet u)) \<and>
   (privateKey (no_parts\<lparr>privateKey := Some (js ''00'')\<rparr>) = Some (js ''00'') \<and>
    length (js ''00'') \<noteq> 64 \<and> \<not> (length (js ''00'') = 66 \<and> drop 64 (js ''00'') = js ''01'') \<and>
    fst (b58c_encodePrivateKeyHex dash_mainnet (no_parts\<lparr>privateKey := Some (js ''00'')\<rparr>))
      = Inl (InvalidPrivateKeyLength 2 True)) \<and>
   (privateKey (no_parts\<lparr>privateKey := Some (replicate 64 0x30 @ js ''01'')\<rparr>)
      = Some (replicate 64 0x30 @ js ''01'') \<and>
    length (replicate 64 (0x30::jschar) @ js ''01'') = 66 \<and>
    drop 64 (replicate 64 (0x30::jschar) @ js ''01'') = js ''01'' \<and>
    compressed (snd (b58c_encodePrivateKeyHex dash_mainnet
        (no_parts\<lparr>privateKey := Some (replicate 64 0x30 @ js ''01'')\<rparr>))) = Some True) \<and>
   (privateKey (sample_key\<lparr>compressed := Some False\<rparr>) = Some (replicate 64 0x30) \<and>
    \<not> truthy (pubKeyHash (sample_key\<lparr>compressed := Some False\<rparr>)) \<and>
    or_else (version (sample_key\<lparr>compressed := Some False\<rparr>)) (privateKeyVersion dash_mainnet)
      = js ''cc'' \<and>
    js ''cc'' \<noteq> [] \<and> js ''cc'' \<noteq> pubKeyHashVersion dash_mainnet \<and>
    length (replicate 64 (0x30::jschar)) = 64 \<and>
    (\<exists>chk. length chk = 8 \<and>
       b58c_encodePrivateKeyHex dash_mainnet (sample_key\<lparr>compressed := Some False\<rparr>)
       = (Inr (js ''cc'' @ replicate 64 0x30 @ js ''00'' @ chk),
          sample_key\<lparr>compressed := Some False, version := Some (js ''cc'')\<rparr>)))"
proof -
  let ?pA = "no_parts\<lparr>privateKey := Some (js ''00'')\<rparr>"
  let ?kB = "replicate 64 (0x30::jschar) @ js ''01''"
  let ?pB = "no_parts\<lparr>privateKey := Some ?kB\<rparr>"
  let ?kC = "replicate 64 (0x30::jschar)"
  let ?pC = "sample_key\<lparr>compressed := Some False\<rparr>"
  have d: "\<forall>u. 4 \<le> length (sha256sum dash_mainnet u)" using dash_mainnet_digest by blast
  have kA: "privateKey ?pA = Some (js ''00'')" by (simp add: no_parts_def)
  have hA: "length (js ''00'') \<noteq> 64 \<and> \<not> (length (js ''00'') = 66 \<and> drop 64 (js ''00'') = js ''01'')"
    by (simp add: js_def)
  have cA: "fst (b58c_encodePrivateKeyHex dash_mainnet ?pA)
      = Inl (InvalidPrivateKeyLength (length (js ''00'')) (compressed ?pA \<noteq> Some False))"
    using C5_encodePrivateKeyHex [OF kA dash_mainnet_digest, THEN conjunct1] hA by (rule mp)
  have kB: "privateKey ?pB = Some ?kB" by (simp add: no_parts_def)
  have hB: "length ?kB = 66 \<and> drop 64 ?kB = js ''01''" by (simp add: js_def)
  have cB: "compressed (snd (b58c_encodePrivateKeyHex dash_mainnet ?pB)) = Some True"
    using C5_encodePrivateKeyHex [OF kB dash_mainnet_digest, THEN conjunct2, THEN conjunct1,
        THEN mp, OF hB]
    by (rule conjunct1)
  have kC: "privateKey ?pC = Some ?kC" by (simp add: sample_key_def no_parts_def)
  have hC: "\<not> truthy (pubKeyHash ?pC) \<and>
      or_else (version ?pC) (privateKeyVersion dash_mainnet) = js ''cc'' \<and>
      js ''cc'' \<noteq> [] \<and> js ''cc'' \<noteq> pubKeyHashVersion dash_mainnet"
    by (simp add: sample_key_def no_parts_def or_else_def dash_mainnet_def js_def)
  have lC: "length ?kC = 64" by simp
  have cC: "\<exists>chk. length chk = 8 \<and>
       b58c_encodePrivateKeyHex dash_mainnet ?pC
       = (Inr (js ''cc'' @ ?kC @ (if compressed ?pC = Some False then js ''00'' else js ''01'') @ chk),
          ?pC\<lparr>version := Some (js ''cc''), compressed := Some (compressed ?pC \<noteq> Some False)\<rparr>)"
    using C5_encodePrivateKeyHex [OF kC dash_mainnet_digest, where v = "js ''cc''",
        THEN conjunct2, THEN conjunct2, THEN mp, OF hC, THEN conjunct2, THEN mp, OF lC] .
  have eA: "length (js ''00'') = 2" "compressed ?pA \<noteq> Some False"
    by (simp_all add: js_def no_parts_def)
  have eC: "compressed ?pC = Some False" by simp
  show ?thesis
    using d kA hA cA kB hB cB kC hC lC cC unfolding eA eC
    by (simp add: sample_key_def no_parts_def)
qed

lemma same_payload_refl [simp]: "same_payload p p"
  by (simp add: same_payload_def)

lemma same_payload_trans: "same_payload p q \<Longrightarrow> same_payload q r \<Longrightarrow> same_payload p r"
  by (simp add: same_payload_def)

lemma same_payload_version [simp]: "same_payload p (q\<lparr>version := v\<rparr>) = same_payload p q"
  by (simp add: same_payload_def)

lemma same_payload_compressed [simp]: "same_payload p (q\<lparr>compressed := c\<rparr>) = same_payload p q"
  by (simp add: same_payload_def)

lemma setVersion_frame: "same_payload p (snd (b58c_setVersion cfg p))"
  by (simp add: b58c_setVersion_def)

lemma setVersion_compressed: "compressed (snd (b58c_setVersion cfg p)) = compressed p"
  by (simp add: b58c_setVersion_def)

lemma checksum_frame: "same_payload p (snd (b58c_checksum cfg p))"
proof -
  obtain r p1 where s: "b58c_setVersion cfg p = (r, p1)" by (cases "b58c_setVersion cfg p")
  then have "same_payload p p1" using setVersion_frame [of p cfg] by simp
  then show ?thesis
    by (cases r) (simp_all add: b58c_checksum_def s Let_def)
qed

lemma encodePubKeyHashHex_frame: "same_payload p (snd (b58c_encodePubKeyHashHex cfg p))"
proof -
  obtain r p1 where s: "b58c_setVersion cfg p = (r, p1)" by (cases "b58c_setVersion cfg p")
  then have 1: "same_payload p p1" using setVersion_frame [of p cfg] by simp
  obtain r2 p2 where c: "b58c_checksum cfg p1 = (r2, p2)" by (cases "b58c_checksum cfg p1")
  then have "same_payload p1 p2" using checksum_frame [of p1 cfg] by simp
  with 1 have 2: "same_payload p p2" by (rule same_payload_trans)
  show ?thesis
    using 1 2
    by (cases r; cases r2) (simp_all add: b58c_encodePubKeyHashHex_def s c split: option.splits)
qed

lemma encodePrivateKeyHex_frame: "same_payload p (snd (b58c_encodePrivateKeyHex cfg p))"
proof -
  define p1 where "p1 = p\<lparr>compressed := Some (case compressed p of None \<Rightarrow> True | Some b \<Rightarrow> b)\<rparr>"
  define p2 where "p2 = (if 66 = length (the (privateKey p1)) \<and>
        js ''01'' = drop (length (the (privateKey p1)) - 2) (the (privateKey p1))
      then p1\<lparr>compressed := Some True\<rparr> else p1)"
  have 0: "same_payload p p1" "same_payload p p2" by (simp_all add: p1_def p2_def)
  obtain r p3 where s: "b58c_setVersion cfg p2 = (r, p3)" by (cases "b58c_setVersion cfg p2")
  then have "same_payload p2 p3" using setVersion_frame [of p2 cfg] by simp
  with 0 have 1: "same_payload p p3" using same_payload_trans by blast
  obtain r2 p4 where c: "b58c_checksum cfg p3 = (r2, p4)" by (cases "b58c_checksum cfg p3")
  then have "same_payload p3 p4" using checksum_frame [of p3 cfg] by simp
  with 1 have 2: "same_payload p p4" by (rule same_payload_trans)
  show ?thesis
    using 0 1 2 s c unfolding b58c_encodePrivateKeyHex_def Let_def p1_def [symmetric]
    by (cases r; cases r2) (auto simp: p2_def split: option.splits)
qed

lemma encodeHex_frame: "same_payload p (snd (b58c_encodeHex cfg p))"
  by (simp add: b58c_encodeHex_def encodePubKeyHashHex_frame encodePrivateKeyHex_frame)

lemma encode_frame: "same_payload p (snd (b58c_encode cfg p))"
proof -
  obtain r p1 where e: "b58c_encodeHex cfg p = (r, p1)" by (cases "b58c_encodeHex cfg p")
  then have "same_payload p p1" using encodeHex_frame [of p cfg] by simp
  then show ?thesis
    by (cases r) (simp_all add: b58c_encode_def e Let_def)
qed

text \<open>
  C9, as amended. The operations are functions of the configuration and their input,
  and no operation returns a changed configuration. \<^verbatim>\<open>checksum\<close>, \<^verbatim>\<open>encodeHex\<close> and
  \<^verbatim>\<open>encode\<close> leave every field of the caller's record but \<^verbatim>\<open>version\<close> and
  \<^verbatim>\<open>compressed\<close> as it was, and the checksum of two records that agree on version,
  keys and \<^verbatim>\<open>compressed\<close> is the same.
\<close>

theorem C9_writes_only_version_and_compressed:
  "same_payload p (snd (b58c_checksum cfg p)) \<and>
   same_payload p (snd (b58c_encodeHex cfg p)) \<and>
   same_payload p (snd (b58c_encode cfg p)) \<and>
   (version p = version q \<and> pubKeyHash p = pubKeyHash q \<and> privateKey p = privateKey q \<and>
    compressed p = compressed q
      \<longrightarrow> fst (b58c_checksum cfg p) = fst (b58c_checksum cfg q))"
proof -
  have "fst (b58c_checksum cfg p) = fst (b58c_checksum cfg q)"
    if "version p = version q" "pubKeyHash p = pubKeyHash q" "privateKey p = privateKey q"
      "compressed p = compressed q"
    using that
    by (auto simp: b58c_checksum_def b58c_setVersion_def Let_def split: prod.splits sum.splits)
  then show ?thesis
    using checksum_frame encodeHex_frame encode_frame by blast
qed

theorem C9_writes_only_version_and_compressed_witness:
  "version sample_pkh = version (sample_pkh\<lparr>check := Some (js ''00'')\<rparr>) \<and>
   pubKeyHash sample_pkh = pubKeyHash (sample_pkh\<lparr>check := Some (js ''00'')\<rparr>) \<and>
   privateKey sample_pkh = privateKey (sample_pkh\<lparr>check := Some (js ''00'')\<rparr>) \<and>
   compressed sample_pkh = compressed (sample_pkh\<lparr>check := Some (js ''00'')\<rparr>) \<and>
   fst (b58c_checksum dash_mainnet sample_pkh)
     = fst (b58c_checksum dash_mainnet (sample_pkh\<lparr>check := Some (js ''00'')\<rparr>))"
proof -
  let ?q = "sample_pkh\<lparr>check := Some (js ''00'')\<rparr>"
  have h: "version sample_pkh = version ?q \<and> pubKeyHash sample_pkh = pubKeyHash ?q \<and>
      privateKey sample_pkh = privateKey ?q \<and> compressed sample_pkh = compressed ?q"
    by simp
  have "fst (b58c_checksum dash_mainnet sample_pkh) = fst (b58c_checksum dash_mainnet ?q)"
    using C9_writes_only_version_and_compressed [where p = sample_pkh and q = ?q and cfg = dash_mainnet,
        THEN conjunct2, THEN conjunct2, THEN conjunct2] h
    by (rule mp)
  with h show ?thesis by simp
qed

text \<open>
  C9 as stated, that no field of the caller's record is written, fails: \<^verbatim>\<open>encode\<close> of a
  record holding a pubKeyHash only leaves it with the default version and
  \<^verbatim>\<open>compressed = true\<close> written in.
\<close>

theorem C9_record_written_counterexample:
  "version sample_pkh = None \<and> compressed sample_pkh = None \<and>
   snd (b58c_encode dash_mainnet sample_pkh)
     = sample_pkh\<lparr>version := Some (js ''4c''), compressed := Some True\<rparr>"
proof -
  have v: "pubKeyHashVersion dash_mainnet = js ''4c''" "privateKeyVersion dash_mainnet = js ''cc''"
    by (simp_all add: dash_mainnet_def)
  have n: "js ''4c'' \<noteq> []" "js ''4c'' \<noteq> js ''cc''" by (simp_all add: js_def)
  show ?thesis
    using n
    by (simp add: b58c_encode_def b58c_encodeHex_def b58c_encodePubKeyHashHex_def
        b58c_setVersion_def b58c_checksum_def sample_pkh_def no_parts_def v PKH_LEN_def Let_def)
qed

lemma take_split: "n \<le> m \<Longrightarrow> take n xs @ drop n (take m xs) = take m xs"
proof -
  assume "n \<le> m"
  then have "take n (take m xs) = take n xs" by (simp add: min_def)
  then show ?thesis using append_take_drop_id [of n "take m xs"] by simp
qed

text \<open>The outcome of \<^verbatim>\<open>checksum\<close> on a record that holds a 40-character pubKeyHash only.\<close>

lemma checksum_pubKeyHash:
  assumes "pubKeyHash p = Some h" "length h = 40" "\<not> truthy (privateKey p)"
    and "version p = Some v" "v \<noteq> []" "v \<noteq> privateKeyVersion cfg"
  shows "b58c_checksum cfg p
     = (Inr (b58c_checksumHexRaw cfg (v @ h)),
        p\<lparr>compressed := Some (case compressed p of None \<Rightarrow> True | Some b \<Rightarrow> b)\<rparr>)"
proof -
  have h: "h \<noteq> []" using assms(2) by auto
  show ?thesis
    using assms h
    by (auto simp: b58c_checksum_def b58c_setVersion_def Let_def PKH_LEN_def)
qed

lemma decode_leaders:
  "0 < n \<Longrightarrow> decode bs58_default (replicate n 0x31) = Inr (replicate n 0)"
proof -
  assume n: "0 < n"
  have t: "takeWhile (\<lambda>x. [x] = [0x31 :: jschar]) (replicate n 0x31) = replicate n 0x31"
    by (induction n) auto
  show ?thesis
    using n
    by (simp add: decode_def decodeUnsafe_def bs58_default_def dec_size_def floorlog_one js_def t)
qed

lemma uint8ArrayToHex_zeroes: "uint8ArrayToHex (replicate n 0) = replicate (2 * n) 0x30"
  by (induction n) (simp_all add: uint8ArrayToHex_def toString16_def padStart_def hex_char_def)

lemma checksumHexRaw_ones: "b58c_checksumHexRaw bitcoin_like hex = js ''01010101''"
proof -
  have "uint8ArrayToHex (take 4 (replicate 32 1)) = js ''01010101''" by code_simp
  then show ?thesis
    by (simp add: b58c_checksumHexRaw_def bitcoin_like_def ones_digest_def)
qed

text \<open>
  C6, as amended. Versions are one byte (two hex characters) and differ. For an input
  of 50 characters with the pubKeyHash version, of 74 characters with the private-key
  version, or of 76 characters with the private-key version and the marker \<^verbatim>\<open>01\<close>,
  \<^verbatim>\<open>verifyHex\<close> decodes it, recomputes the checksum over all that precedes the last
  eight characters, and compares it with them: equal, the record is returned;
  different, it throws the mismatch error unless \<^verbatim>\<open>opts.verify\<close> is \<^verbatim>\<open>false\<close>, and then
  returns the record with \<^verbatim>\<open>valid = false\<close>. \<^verbatim>\<open>verify\<close>, on the string form, passes no
  options: it returns the record or throws the mismatch error.
\<close>

theorem C6_verifyHex:
  assumes cfg: "length (pubKeyHashVersion cfg) = 2" "length (privateKeyVersion cfg) = 2"
      "pubKeyHashVersion cfg \<noteq> privateKeyVersion cfg"
    and addr: "take 2 addr = pubKeyHashVersion cfg \<and> length addr = 50 \<or>
               take 2 addr = privateKeyVersion cfg \<and>
               (length addr = 74 \<or> length addr = 76 \<and> drop 66 (take 68 addr) = js ''01'')"
  shows "\<exists>parts0 parts.
           b58c_decodeHex cfg addr = Inr parts0 \<and>
           b58c_checksum cfg parts0
             = (Inr (b58c_checksumHexRaw cfg (take (length addr - 8) addr)), parts) \<and>
           check parts = Some (drop (length addr - 8) addr) \<and>
           (\<forall>opts. b58c_verifyHex cfg addr opts
             = (if check parts = Some (b58c_checksumHexRaw cfg (take (length addr - 8) addr))
                then Inr parts
                else if Option.bind opts verify = Some False
                then Inr (parts\<lparr>valid := Some False\<rparr>)
                else Inl (ChecksumMismatch (drop (length addr - 8) addr)
                            (b58c_checksumHexRaw cfg (take (length addr - 8) addr))))) \<and>
           (\<forall>b58Addr u8. decode (bs58 cfg) b58Addr = Inr u8 \<and> uint8ArrayToHex u8 = addr
             \<longrightarrow> b58c_verify cfg b58Addr
                 = (if check parts = Some (b58c_checksumHexRaw cfg (take (length addr - 8) addr))
                    then Inr parts
                    else Inl (ChecksumMismatch (drop (length addr - 8) addr)
                                (b58c_checksumHexRaw cfg (take (length addr - 8) addr)))))"
proof -
  let ?v = "take 2 addr"
  let ?chk = "drop (length addr - 8) addr"
  let ?cov = "take (length addr - 8) addr"
  have ne: "pubKeyHashVersion cfg \<noteq> []" "privateKeyVersion cfg \<noteq> []" using cfg by auto
  have fin: ?thesis
    if d: "b58c_decodeHex cfg addr = Inr p0"
      and c: "b58c_checksum cfg p0 = (Inr (b58c_checksumHexRaw cfg ?cov), p)"
      and k: "check p = Some ?chk"
    for p0 p
  proof -
    have vh: "b58c_verifyHex cfg addr opts
        = (if check p = Some (b58c_checksumHexRaw cfg ?cov) then Inr p
           else if Option.bind opts verify = Some False then Inr (p\<lparr>valid := Some False\<rparr>)
           else Inl (ChecksumMismatch ?chk (b58c_checksumHexRaw cfg ?cov)))" for opts
      using k by (simp add: b58c_verifyHex_def d c Let_def)
    have vf: "b58c_verify cfg b58Addr
        = (if check p = Some (b58c_checksumHexRaw cfg ?cov) then Inr p
           else Inl (ChecksumMismatch ?chk (b58c_checksumHexRaw cfg ?cov)))"
      if "decode (bs58 cfg) b58Addr = Inr u8 \<and> uint8ArrayToHex u8 = addr" for b58Addr u8
      using that vh [of None] by (simp add: b58c_verify_def)
    show ?thesis
      apply (rule exI [of _ p0], rule exI [of _ p])
      using d c k vh vf by blast
  qed
  from addr consider
      (pkh) "take 2 addr = pubKeyHashVersion cfg" "length addr = 50"
    | (priv) "take 2 addr = privateKeyVersion cfg"
        "length addr = 74 \<or> length addr = 76 \<and> drop 66 (take 68 addr) = js ''01''"
    by blast
  then show ?thesis
  proof cases
    case pkh
    note v = pkh(1) and l = pkh(2)
    let ?h = "drop 2 (take 42 addr)"
    let ?p0 = "no_parts\<lparr>version := Some ?v, pubKeyHash := Some ?h, check := Some ?chk\<rparr>"
    have d: "b58c_decodeHex cfg addr = Inr ?p0"
      using v l cfg by (simp add: b58c_decodeHex_def Let_def)
    have lh: "length ?h = 40" using l by simp
    have c: "b58c_checksum cfg ?p0
        = (Inr (b58c_checksumHexRaw cfg (?v @ ?h)), ?p0\<lparr>compressed := Some True\<rparr>)"
      using checksum_pubKeyHash [where p = ?p0 and h = ?h and v = ?v and cfg = cfg] lh v cfg ne
      by (simp add: no_parts_def)
    have "?v @ ?h = take 42 addr" by (rule take_split) simp
    then have cov: "?v @ ?h = ?cov" using l by simp
    show ?thesis
      using d c [unfolded cov] by (rule fin) simp
  next
    case priv
    note v = priv(1) and l = priv(2)
    let ?raw = "drop 2 ?cov"
    let ?k = "take 64 ?raw"
    let ?c = "js ''01'' = drop 64 ?raw"
    let ?p0 = "no_parts\<lparr>version := Some ?v, privateKey := Some ?k, compressed := Some ?c,
        check := Some ?chk\<rparr>"
    have nv: "take 2 addr \<noteq> pubKeyHashVersion cfg" using v cfg by simp
    have d: "b58c_decodeHex cfg addr = Inr ?p0"
      using v l cfg by (auto simp: b58c_decodeHex_def Let_def)
    have lk: "length ?k = 64" using l by auto
    then have k: "?k \<noteq> []" by auto
    have c: "b58c_checksum cfg ?p0
        = (Inr (b58c_checksumHexRaw cfg (?v @ ?k @ (if ?c \<and> 64 = length ?k then js ''01'' else []))), ?p0)"
      using checksum_private [where p = ?p0 and key = ?k and v = ?v and cfg = cfg and c = ?c] k nv v ne
      by (simp add: no_parts_def)
    have vk: "?v @ ?k = take 66 addr"
    proof -
      have "?k = drop 2 (take 66 addr)" using l by (auto simp: take_drop)
      then show ?thesis using take_split [of 2 66 addr] by simp
    qed
    have cov: "?v @ ?k @ (if ?c \<and> 64 = length ?k then js ''01'' else []) = ?cov"
    proof (cases "length addr = 76")
      case True
      then have m: "drop 66 (take 68 addr) = js ''01''" using l by simp
      have r: "drop 64 ?raw = drop 66 (take 68 addr)" using True by simp
      have "take 66 addr @ drop 66 (take 68 addr) = take 68 addr" by (rule take_split) simp
      then have "(?v @ ?k) @ js ''01'' = ?cov" using True m vk by simp
      then show ?thesis using m lk r by simp
    next
      case False
      then have l74: "length addr = 74" using l by simp
      then have "drop 64 ?raw = []" by simp
      moreover have "js ''01'' \<noteq> []" by (simp add: js_def)
      ultimately have "\<not> ?c" by auto
      then show ?thesis using l74 vk by simp
    qed
    show ?thesis
      using d c [unfolded cov] by (rule fin) simp
  qed
qed

theorem C6_verifyHex_witness:
  "length (pubKeyHashVersion bitcoin_like) = 2 \<and> length (privateKeyVersion bitcoin_like) = 2 \<and>
   pubKeyHashVersion bitcoin_like \<noteq> privateKeyVersion bitcoin_like \<and>
   take 2 (replicate 50 0x30) = pubKeyHashVersion bitcoin_like \<and>
   length (replicate 50 (0x30::jschar)) = 50 \<and>
   decode (bs58 bitcoin_like) (replicate 25 0x31) = Inr (replicate 25 0) \<and>
   uint8ArrayToHex (replicate 25 0) = replicate 50 0x30 \<and>
   b58c_checksumHexRaw bitcoin_like (take (length (replicate 50 (0x30::jschar)) - 8) (replicate 50 0x30))
     = js ''01010101'' \<and>
   (\<exists>parts. check parts = Some (replicate 8 0x30) \<and>
      b58c_verifyHex bitcoin_like (replicate 50 0x30) (Some \<lparr>verify = Some False\<rparr>)
        = Inr (parts\<lparr>valid := Some False\<rparr>) \<and>
      b58c_verifyHex bitcoin_like (replicate 50 0x30) None
        = Inl (ChecksumMismatch (replicate 8 0x30) (js ''01010101'')) \<and>
      b58c_verify bitcoin_like (replicate 25 0x31)
        = Inl (ChecksumMismatch (replicate 8 0x30) (js ''01010101'')))"
proof -
  let ?A = "replicate 50 (0x30::jschar)"
  have c: "length (pubKeyHashVersion bitcoin_like) = 2" "length (privateKeyVersion bitcoin_like) = 2"
    "pubKeyHashVersion bitcoin_like \<noteq> privateKeyVersion bitcoin_like"
    by (simp_all add: bitcoin_like_def js_def)
  have a: "take 2 ?A = pubKeyHashVersion bitcoin_like" "length ?A = 50"
    by (simp_all add: bitcoin_like_def js_def numeral_eq_Suc)
  then have a': "take 2 ?A = pubKeyHashVersion bitcoin_like \<and> length ?A = 50 \<or>
      take 2 ?A = privateKeyVersion bitcoin_like \<and>
      (length ?A = 74 \<or> length ?A = 76 \<and> drop 66 (take 68 ?A) = js ''01'')"
    by blast
  have dec: "decode (bs58 bitcoin_like) (replicate 25 0x31) = Inr (replicate 25 0)"
    by (simp add: bitcoin_like_def decode_leaders)
  have hex: "uint8ArrayToHex (replicate 25 0) = ?A"
    by (simp add: uint8ArrayToHex_zeroes)
  have chk: "b58c_checksumHexRaw bitcoin_like (take (length ?A - 8) ?A) = js ''01010101''"
    by (rule checksumHexRaw_ones)
  have last8: "drop (length ?A - 8) ?A = replicate 8 0x30" by simp
  have ne: "replicate 8 (0x30::jschar) \<noteq> js ''01010101''"
    by (simp add: js_def numeral_eq_Suc)
  from C6_verifyHex [OF c a'] obtain parts0 parts where
    k: "check parts = Some (drop (length ?A - 8) ?A)"
    and vh: "\<And>opts. b58c_verifyHex bitcoin_like ?A opts
        = (if check parts = Some (b58c_checksumHexRaw bitcoin_like (take (length ?A - 8) ?A))
           then Inr parts
           else if Option.bind opts verify = Some False then Inr (parts\<lparr>valid := Some False\<rparr>)
           else Inl (ChecksumMismatch (drop (length ?A - 8) ?A)
                  (b58c_checksumHexRaw bitcoin_like (take (length ?A - 8) ?A))))"
    and vf: "\<And>b58Addr u8. decode (bs58 bitcoin_like) b58Addr = Inr u8 \<and> uint8ArrayToHex u8 = ?A
        \<longrightarrow> b58c_verify bitcoin_like b58Addr
            = (if check parts = Some (b58c_checksumHexRaw bitcoin_like (take (length ?A - 8) ?A))
               then Inr parts
               else Inl (ChecksumMismatch (drop (length ?A - 8) ?A)
                      (b58c_checksumHexRaw bitcoin_like (take (length ?A - 8) ?A))))"
    by blast
  have k': "check parts = Some (replicate 8 0x30)" using k unfolding last8 .
  have r1: "b58c_verifyHex bitcoin_like ?A (Some \<lparr>verify = Some False\<rparr>)
      = Inr (parts\<lparr>valid := Some False\<rparr>)"
    using ne unfolding vh chk k' by simp
  have r2: "b58c_verifyHex bitcoin_like ?A None
      = Inl (ChecksumMismatch (replicate 8 0x30) (js ''01010101''))"
    using ne unfolding vh chk k' last8 by simp
  have r3: "b58c_verify bitcoin_like (replicate 25 0x31)
      = Inl (ChecksumMismatch (replicate 8 0x30) (js ''01010101''))"
    using ne vf [of "replicate 25 0x31" "replicate 25 0"] dec hex unfolding chk k' last8 by simp
  have ex: "\<exists>parts. check parts = Some (replicate 8 0x30) \<and>
      b58c_verifyHex bitcoin_like ?A (Some \<lparr>verify = Some False\<rparr>) = Inr (parts\<lparr>valid := Some False\<rparr>) \<and>
      b58c_verifyHex bitcoin_like ?A None
        = Inl (ChecksumMismatch (replicate 8 0x30) (js ''01010101'')) \<and>
      b58c_verify bitcoin_like (replicate 25 0x31)
        = Inl (ChecksumMismatch (replicate 8 0x30) (js ''01010101''))"
    using k' r1 r2 r3 by blast
  show ?thesis
    using c a dec hex chk ex by (intro conjI) assumption+
qed

text \<open>
  C6 as stated, for every decodable input, fails for a 50-character input with the
  private-key version: it decodes to a pubKeyHash record, and \<^verbatim>\<open>checksum\<close> refuses the
  record through \<^verbatim>\<open>_setVersion\<close> ("is a private version, but the given key is a
  pubKeyHash") also when \<^verbatim>\<open>opts.verify\<close> is \<^verbatim>\<open>false\<close>.
\<close>

theorem C6_private_version_counterexample:
  "b58c_decodeHex dash_mainnet (js ''cc'' @ replicate 40 0x30 @ js ''ffffffff'')
     = Inr (no_parts\<lparr>version := Some (js ''cc''), pubKeyHash := Some (replicate 40 0x30),
                     check := Some (js ''ffffffff'')\<rparr>) \<and>
   b58c_verifyHex dash_mainnet (js ''cc'' @ replicate 40 0x30 @ js ''ffffffff'')
       (Some \<lparr>verify = Some False\<rparr>)
     = Inl (PrivateVersionPubKeyHash (js ''cc''))"
  by (simp add: b58c_verifyHex_def b58c_decodeHex_def Let_def dash_mainnet_def js_def
      b58c_checksum_def b58c_setVersion_def no_parts_def)

text \<open>
  An input carrying an extended-key version is decoded, but \<^verbatim>\<open>verifyHex\<close> then fails in
  \<^verbatim>\<open>checksum\<close>, which knows the two plain keys only: the key is \<^verbatim>\<open>undefined\<close> and reading
  its length throws a TypeError, whatever the options.
\<close>

lemma verifyHex_extended_key:
  "b58c_decodeHex dash_mainnet (js ''0488ade400ffffffff'')
     = Inr (no_parts\<lparr>version := Some (js ''0488ade4''), xprv := Some (js ''00''),
                     check := Some (js ''ffffffff'')\<rparr>) \<and>
   b58c_verifyHex dash_mainnet (js ''0488ade400ffffffff'') opts = Inl TypeError_undefined_length"
proof -
  let ?A = "js ''0488ade400ffffffff''"
  have v: "pubKeyHashVersion dash_mainnet = js ''4c''" "privateKeyVersion dash_mainnet = js ''cc''"
    "xpubVersion dash_mainnet = js ''0488b21e''" "xprvVersion dash_mainnet = js ''0488ade4''"
    by (simp_all add: dash_mainnet_def)
  have d: "b58c_decodeHex dash_mainnet ?A
      = Inr (no_parts\<lparr>version := Some (js ''0488ade4''), xprv := Some (js ''00''),
                      check := Some (js ''ffffffff'')\<rparr>)"
    by (simp add: b58c_decodeHex_def Let_def v js_def)
  have n: "js ''0488ade4'' \<noteq> []" by (simp add: js_def)
  show ?thesis
    using n unfolding b58c_verifyHex_def d
    by (simp add: b58c_checksum_def b58c_setVersion_def no_parts_def)
qed

text \<open>
  A 76-character input whose marker byte is not \<^verbatim>\<open>01\<close> is decoded with
  \<^verbatim>\<open>compressed = false\<close>, and \<^verbatim>\<open>checksum\<close> then hashes version and key only: the marker
  byte is not under the checksum.
\<close>

lemma checksum_leaves_marker_out:
  assumes cfg: "length (pubKeyHashVersion cfg) = 2" "length (privateKeyVersion cfg) = 2"
      "pubKeyHashVersion cfg \<noteq> privateKeyVersion cfg"
    and addr: "take 2 addr = privateKeyVersion cfg" "length addr = 76"
      "drop 66 (take 68 addr) \<noteq> js ''01''"
  shows "\<exists>parts0. b58c_decodeHex cfg addr = Inr parts0 \<and>
           b58c_checksum cfg parts0 = (Inr (b58c_checksumHexRaw cfg (take 66 addr)), parts0)"
proof -
  let ?v = "take 2 addr"
  let ?raw = "drop 2 (take (length addr - 8) addr)"
  let ?k = "take 64 ?raw"
  let ?c = "js ''01'' = drop 64 ?raw"
  let ?p0 = "no_parts\<lparr>version := Some ?v, privateKey := Some ?k, compressed := Some ?c,
      check := Some (drop (length addr - 8) addr)\<rparr>"
  have ne: "privateKeyVersion cfg \<noteq> []" using cfg by auto
  have nv: "take 2 addr \<noteq> pubKeyHashVersion cfg" using addr(1) cfg by simp
  have d: "b58c_decodeHex cfg addr = Inr ?p0"
    using addr cfg by (auto simp: b58c_decodeHex_def Let_def)
  have lk: "length ?k = 64" using addr(2) by auto
  then have k: "?k \<noteq> []" by auto
  have c: "b58c_checksum cfg ?p0
      = (Inr (b58c_checksumHexRaw cfg (?v @ ?k @ (if ?c \<and> 64 = length ?k then js ''01'' else []))), ?p0)"
    using checksum_private [where p = ?p0 and key = ?k and v = ?v and cfg = cfg and c = ?c]
      k nv addr(1) ne
    by (simp add: no_parts_def)
  have "?k = drop 2 (take 66 addr)" using addr(2) by (auto simp: take_drop)
  then have vk: "?v @ ?k = take 66 addr" using take_split [of 2 66 addr] by simp
  have "drop 64 ?raw = drop 66 (take 68 addr)" using addr(2) by simp
  then have "\<not> ?c" using addr(3) by auto
  then have "?v @ ?k @ (if ?c \<and> 64 = length ?k then js ''01'' else []) = take 66 addr"
    using vk by simp
  then show ?thesis using d c by simp
qed

section \<open>The key codec: round trip\<close>

lemma hex_digit_cases:
  assumes "hex_digit c"
  obtains "c = 0x30" | "c = 0x31" | "c = 0x32" | "c = 0x33" | "c = 0x34" | "c = 0x35"
    | "c = 0x36" | "c = 0x37" | "c = 0x38" | "c = 0x39" | "c = 0x61" | "c = 0x62"
    | "c = 0x63" | "c = 0x64" | "c = 0x65" | "c = 0x66" | "c = 0x41" | "c = 0x42"
    | "c = 0x43" | "c = 0x44" | "c = 0x45" | "c = 0x46"
  using assms unfolding hex_digit_def js_def by auto

lemma hex_digit_value:
  assumes "hex_digit c"
  shows "\<exists>v<16. hex_digit_value c = Some v \<and> hex_char v = lower_case c"
  using assms
  by (rule hex_digit_cases) (simp_all add: hex_digit_value_def hex_char_def lower_case_def)

lemma hex_digit_plain:
  assumes "hex_digit c"
  shows "\<not> is_StrWhiteSpaceChar c" and "c \<noteq> 0x2D" and "c \<noteq> 0x2B" and "c \<noteq> 0x78" and "c \<noteq> 0x58"
  using assms
  by (rule hex_digit_cases; simp add: is_StrWhiteSpaceChar_def)+

lemma hex_digit_lower_case:
  assumes "hex_digit c"
  shows "hex_digit (lower_case c)" and "hex_digit_value (lower_case c) = hex_digit_value c"
  using assms
  by (rule hex_digit_cases; simp add: hex_digit_def js_def lower_case_def hex_digit_value_def)+

lemma lower_hex_digit_hex:
  assumes "lower_hex_digit c"
  shows "hex_digit c" and "lower_case c = c"
proof -
  from assms have c: "c \<in> set (js ''0123456789abcdef'')" by (simp add: lower_hex_digit_def)
  then show "hex_digit c" by (auto simp: hex_digit_def js_def)
  from c show "lower_case c = c" by (auto simp: js_def lower_case_def)
qed

lemma parseInt16_pair:
  assumes "hex_digit_value a = Some va" "hex_digit_value b = Some vb"
    and "\<not> is_StrWhiteSpaceChar a" "a \<noteq> 0x2D" "a \<noteq> 0x2B" "b \<noteq> 0x78" "b \<noteq> 0x58"
  shows "parseInt16 [a, b] = Some (int (va * 16 + vb))"
  using assms by (simp add: parseInt16_def Let_def js_def)

lemma parseInt16_hex_pair:
  assumes "hex_digit a" "hex_digit b"
  shows "\<exists>va vb. va < 16 \<and> vb < 16 \<and> hex_char va = lower_case a \<and> hex_char vb = lower_case b \<and>
           parseInt16 [a, b] = Some (int (va * 16 + vb)) \<and>
           parseInt16 [lower_case a, lower_case b] = Some (int (va * 16 + vb))"
proof -
  from hex_digit_value [OF assms(1)] obtain va where
    va: "va < 16" "hex_digit_value a = Some va" "hex_char va = lower_case a" by blast
  from hex_digit_value [OF assms(2)] obtain vb where
    vb: "vb < 16" "hex_digit_value b = Some vb" "hex_char vb = lower_case b" by blast
  have p: "parseInt16 [a, b] = Some (int (va * 16 + vb))"
    using va(2) vb(2) hex_digit_plain [OF assms(1)] hex_digit_plain [OF assms(2)]
    by (intro parseInt16_pair)
  note la = hex_digit_lower_case [OF assms(1)] and lb = hex_digit_lower_case [OF assms(2)]
  have q: "parseInt16 [lower_case a, lower_case b] = Some (int (va * 16 + vb))"
    using va(2) vb(2) la(2) lb(2) hex_digit_plain [OF la(1)] hex_digit_plain [OF lb(1)]
    by (intro parseInt16_pair) simp_all
  show ?thesis using va vb p q by blast
qed

lemma hex_pair_roundtrip:
  assumes "hex_digit a" "hex_digit b"
  shows "padStart (toString16 (ToUint8 (parseInt16 [a, b]))) 2 0x30 = [lower_case a, lower_case b]"
proof -
  from parseInt16_hex_pair [OF assms] obtain va vb where
    va: "va < 16" "hex_char va = lower_case a" and vb: "vb < 16" "hex_char vb = lower_case b"
    and p: "parseInt16 [a, b] = Some (int (va * 16 + vb))"
    by blast
  have n: "va * 16 + vb < 256" using va(1) vb(1) by linarith
  have u: "unat (ToUint8 (parseInt16 [a, b])) = va * 16 + vb"
    using n by (simp add: p ToUint8_def unat_of_nat del: of_nat_add of_nat_mult)
  have dv: "(va * 16 + vb) div 16 = va" "(va * 16 + vb) mod 16 = vb" using vb(1) by simp_all
  show ?thesis
  proof (cases "va = 0")
    case True
    then have "lower_case a = 0x30" using va(2) by (simp add: hex_char_def)
    then show ?thesis using True vb u by (simp add: toString16_def padStart_def)
  next
    case False
    then have "\<not> va * 16 + vb < 16" by simp
    then show ?thesis using u dv va(2) vb(2) by (simp add: toString16_def padStart_def)
  qed
qed

lemma hex_roundtrip:
  "hex_string s \<Longrightarrow> even (length s) \<Longrightarrow> uint8ArrayToHex (hexToUint8Array s) = map lower_case s"
proof (induction s rule: hexToUint8Array.induct)
  case (1 a b rest)
  then have "hex_digit a" "hex_digit b" "hex_string rest" "even (length rest)"
    by (simp_all add: hex_string_def)
  then show ?case
    using "1.IH" hex_pair_roundtrip [of a b] by (simp add: uint8ArrayToHex_def)
qed (simp_all add: uint8ArrayToHex_def)

lemma hexToUint8Array_lower_case:
  "hex_string s \<Longrightarrow> even (length s) \<Longrightarrow> hexToUint8Array (map lower_case s) = hexToUint8Array s"
proof (induction s rule: hexToUint8Array.induct)
  case (1 a b rest)
  then have ab: "hex_digit a" "hex_digit b" and r: "hex_string rest" "even (length rest)"
    by (simp_all add: hex_string_def)
  from parseInt16_hex_pair [OF ab]
  have "parseInt16 [lower_case a, lower_case b] = parseInt16 [a, b]" by auto
  then show ?case using "1.IH" r by simp
qed simp_all

lemma lower_hex_hex_string: "lower_hex s \<Longrightarrow> hex_string s"
  by (simp add: lower_hex_def hex_string_def lower_hex_digit_hex)

lemma lower_hex_lower_case: "lower_hex s \<Longrightarrow> map lower_case s = s"
  by (induction s) (simp_all add: lower_hex_def lower_hex_digit_hex)

lemma hex_char_lower: "v < 16 \<Longrightarrow> lower_hex_digit (hex_char v)"
proof -
  assume "v < 16"
  then have "v \<in> set [0 ..< 16]" by simp
  also have "[0 ..< 16] = [0, 1, 2, 3, 4, 5, 6, 7, 8, 9, 10, 11, 12, 13, 14, 15 :: nat]"
    by (simp add: upt_rec)
  finally show ?thesis
    by (auto simp: hex_char_def lower_hex_digit_def js_def)
qed

lemma lower_hex_uint8ArrayToHex: "lower_hex (uint8ArrayToHex u)"
proof -
  have "lower_hex (padStart (toString16 b) 2 0x30)" for b :: byte
  proof -
    have "unat b < 256" by (rule unat_byte)
    then have "unat b div 16 < 16" "unat b mod 16 < 16" by simp_all
    moreover have "lower_hex_digit 0x30" by (simp add: lower_hex_digit_def js_def)
    ultimately show ?thesis
      by (auto simp: toString16_def padStart_def lower_hex_def hex_char_lower)
  qed
  then show ?thesis by (induction u) (auto simp: uint8ArrayToHex_def lower_hex_def)
qed

lemma lower_hex_checksumHexRaw: "lower_hex (b58c_checksumHexRaw cfg hex)"
  by (simp add: b58c_checksumHexRaw_def Let_def lower_hex_uint8ArrayToHex)

lemma hex_string_append [simp]: "hex_string (xs @ ys) \<longleftrightarrow> hex_string xs \<and> hex_string ys"
  by (auto simp: hex_string_def)

lemma encodePubKeyHashHex_ok:
  assumes "pubKeyHash p = Some h" "length h = 40" "\<not> truthy (privateKey p)"
    and "version p = None \<or> version p = Some (pubKeyHashVersion cfg)"
    and "pubKeyHashVersion cfg \<noteq> []" "pubKeyHashVersion cfg \<noteq> privateKeyVersion cfg"
  shows "fst (b58c_encodePubKeyHashHex cfg p)
     = Inr (pubKeyHashVersion cfg @ h @ b58c_checksumHexRaw cfg (pubKeyHashVersion cfg @ h))"
proof -
  let ?v = "pubKeyHashVersion cfg"
  let ?p1 = "p\<lparr>version := Some ?v\<rparr>"
  have h: "h \<noteq> []" using assms(2) by auto
  have s: "b58c_setVersion cfg p = (Inr (), ?p1)"
    using assms h by (auto simp: b58c_setVersion_def truthy_def)
  have c: "b58c_checksum cfg ?p1
      = (Inr (b58c_checksumHexRaw cfg (?v @ h)),
         ?p1\<lparr>compressed := Some (case compressed ?p1 of None \<Rightarrow> True | Some b \<Rightarrow> b)\<rparr>)"
    using assms by (intro checksum_pubKeyHash) simp_all
  show ?thesis
    using assms(1,2) by (simp add: b58c_encodePubKeyHashHex_def s c)
qed

lemma encodePrivateKeyHex_ok:
  assumes "privateKey p = Some k" "length k = 64" "\<not> truthy (pubKeyHash p)"
    and "version p = None \<or> version p = Some (privateKeyVersion cfg)"
    and "privateKeyVersion cfg \<noteq> []" "privateKeyVersion cfg \<noteq> pubKeyHashVersion cfg"
  shows "fst (b58c_encodePrivateKeyHex cfg p)
     = Inr (privateKeyVersion cfg @ k @ (if compressed p = Some False then js ''00'' else js ''01'')
            @ b58c_checksumHexRaw cfg
                (privateKeyVersion cfg @ k @ (if compressed p = Some False then [] else js ''01'')))"
proof -
  let ?v = "privateKeyVersion cfg"
  define c where "c = (compressed p \<noteq> Some False)"
  let ?p1 = "p\<lparr>compressed := Some c\<rparr>"
  have c1: "(case compressed p of None \<Rightarrow> True | Some b \<Rightarrow> b) = c"
    by (auto simp: c_def split: option.splits)
  have k: "k \<noteq> []" using assms(2) by auto
  have not66: "\<not> (66 = length k \<and> js ''01'' = drop (length k - 2) k)" using assms(2) by simp
  have ov: "or_else (version ?p1) ?v = ?v"
    using assms(4,5) by (auto simp: or_else_def)
  have tv: "truthy (version ?p1) \<longrightarrow> version ?p1 \<noteq> Some (pubKeyHashVersion cfg)"
    using assms(4,6) by (auto simp: truthy_def)
  have s: "b58c_setVersion cfg ?p1 = (Inr (), ?p1\<lparr>version := Some ?v\<rparr>)"
    using setVersion_private [where p = ?p1 and key = k and cfg = cfg] assms(1,3) k tv ov by simp
  have ck: "b58c_checksum cfg (?p1\<lparr>version := Some ?v\<rparr>)
      = (Inr (b58c_checksumHexRaw cfg (?v @ k @ (if c \<and> 64 = length k then js ''01'' else []))),
         ?p1\<lparr>version := Some ?v\<rparr>)"
    using checksum_private [where p = "?p1\<lparr>version := Some ?v\<rparr>" and key = k and cfg = cfg
        and v = ?v and c = c] assms(1,3,5,6) k by simp
  show ?thesis
    using assms(1,2) s ck not66 unfolding b58c_encodePrivateKeyHex_def Let_def c1
    by (auto simp: c_def)
qed

lemma encode_then_decode_hex:
  assumes wf: "wf_base_x (bs58 cfg)" and B: "2 \<le> BASE (bs58 cfg)"
    and hex: "hex_string hex" "even (length hex)"
  shows "\<exists>s. encode (bs58 cfg) (hexToUint8Array hex) = Inr s \<and>
           b58c_decode cfg s = b58c_decodeHex cfg (map lower_case hex)"
proof -
  from bs58_roundtrip [OF wf B, of "hexToUint8Array hex"] obtain s where
    e: "encode (bs58 cfg) (hexToUint8Array hex) = Inr s"
    and d: "decodeUnsafe (bs58 cfg) s = Inr (Some (hexToUint8Array hex))"
    by blast
  have "b58c_decode cfg s = b58c_decodeHex cfg (uint8ArrayToHex (hexToUint8Array hex))"
    by (simp add: b58c_decode_def decode_def d)
  then show ?thesis using e hex_roundtrip [OF hex] by simp
qed

text \<open>
  C2, as amended. The codec comes from \<^verbatim>\<open>create\<close> with a dictionary of at least two
  symbols, its two 1-byte versions are lower-case hex and differ, and the digest returns
  at least four bytes. Hashes and keys are hex strings, in either case. A record with a
  pubKeyHash of 20 bytes (40 characters) only, its version unset or the configured one,
  is encoded, and the string decodes to a record with the configured version and the
  same hash: the same bytes, spelled in lower case (so the same string when the input
  is in lower case). A record with a private key of 32 bytes (64 characters) only
  likewise comes back with the same key and with \<^verbatim>\<open>compressed\<close> as given (true when
  unset).
\<close>

theorem C2_keycodec_roundtrip:
  assumes cfg: "create digest opts = Inr cfg" and B: "2 \<le> BASE (bs58 cfg)"
    and digest: "\<And>u. 4 \<le> length (digest u)"
    and ver: "length (pubKeyHashVersion cfg) = 2" "length (privateKeyVersion cfg) = 2"
      "lower_hex (pubKeyHashVersion cfg)" "lower_hex (privateKeyVersion cfg)"
      "pubKeyHashVersion cfg \<noteq> privateKeyVersion cfg"
    and x: "\<not> truthy (xprv p)" "\<not> truthy (xpub p)"
  shows
   "(pubKeyHash p = Some h \<and> hex_string h \<and> length h = 40 \<and> \<not> truthy (privateKey p) \<and>
     (version p = None \<or> version p = Some (pubKeyHashVersion cfg))
       \<longrightarrow> (\<exists>s r. fst (b58c_encode cfg p) = Inr s \<and> b58c_decode cfg s = Inr r \<and>
                 pubKeyHash r = Some (map lower_case h) \<and>
                 hexToUint8Array (map lower_case h) = hexToUint8Array h \<and>
                 version r = Some (pubKeyHashVersion cfg))) \<and>
    (privateKey p = Some k \<and> hex_string k \<and> length k = 64 \<and> \<not> truthy (pubKeyHash p) \<and>
     (version p = None \<or> version p = Some (privateKeyVersion cfg))
       \<longrightarrow> (\<exists>s r. fst (b58c_encode cfg p) = Inr s \<and> b58c_decode cfg s = Inr r \<and>
                 privateKey r = Some (map lower_case k) \<and>
                 hexToUint8Array (map lower_case k) = hexToUint8Array k \<and>
                 compressed r = Some (compressed p \<noteq> Some False) \<and>
                 version r = Some (privateKeyVersion cfg)))"
proof (intro conjI impI)
  note cs = create_spec [OF cfg]
  let ?v = "pubKeyHashVersion cfg"
  assume a: "pubKeyHash p = Some h \<and> hex_string h \<and> length h = 40 \<and> \<not> truthy (privateKey p) \<and>
     (version p = None \<or> version p = Some (pubKeyHashVersion cfg))"
  define chk where "chk = b58c_checksumHexRaw cfg (?v @ h)"
  define hex where "hex = ?v @ h @ chk"
  have lc: "length chk = 8"
    unfolding chk_def using digest by (intro length_checksumHexRaw) (simp add: cs(6))
  have lo: "lower_hex chk" unfolding chk_def by (rule lower_hex_checksumHexRaw)
  have hs: "hex_string hex" "even (length hex)"
    using a ver lo lc by (simp_all add: hex_def lower_hex_hex_string)
  have low: "map lower_case hex = ?v @ map lower_case h @ chk"
    using ver(3) lo by (simp add: hex_def lower_hex_lower_case)
  have e: "fst (b58c_encodePubKeyHashHex cfg p) = Inr hex"
    unfolding hex_def chk_def using a cs(2) ver(5) by (intro encodePubKeyHashHex_ok) simp_all
  then obtain p2 where e2: "b58c_encodePubKeyHashHex cfg p = (Inr hex, p2)"
    by (cases "b58c_encodePubKeyHashHex cfg p") simp
  have hne: "h \<noteq> []" using a by auto
  have enc: "fst (b58c_encode cfg p) = encode (bs58 cfg) (hexToUint8Array hex)"
    using x a hne by (simp add: b58c_encode_def b58c_encodeHex_def e2)
  from encode_then_decode_hex [OF cs(1) B hs] obtain s where
    s: "encode (bs58 cfg) (hexToUint8Array hex) = Inr s"
    and d: "b58c_decode cfg s = b58c_decodeHex cfg (map lower_case hex)"
    by blast
  have dh: "b58c_decodeHex cfg (?v @ map lower_case h @ chk)
      = Inr (no_parts\<lparr>version := Some ?v, pubKeyHash := Some (map lower_case h), check := Some chk\<rparr>)"
    using a ver(1,2) lc by (simp add: b58c_decodeHex_def Let_def)
  have same: "hexToUint8Array (map lower_case h) = hexToUint8Array h"
    using a by (intro hexToUint8Array_lower_case) simp_all
  show "\<exists>s r. fst (b58c_encode cfg p) = Inr s \<and> b58c_decode cfg s = Inr r \<and>
      pubKeyHash r = Some (map lower_case h) \<and>
      hexToUint8Array (map lower_case h) = hexToUint8Array h \<and>
      version r = Some (pubKeyHashVersion cfg)"
    using enc s d dh same unfolding low by (simp add: no_parts_def)
next
  note cs = create_spec [OF cfg]
  let ?v = "privateKeyVersion cfg"
  assume a: "privateKey p = Some k \<and> hex_string k \<and> length k = 64 \<and> \<not> truthy (pubKeyHash p) \<and>
     (version p = None \<or> version p = Some (privateKeyVersion cfg))"
  define m where "m = (if compressed p = Some False then js ''00'' else js ''01'')"
  define chk where "chk = b58c_checksumHexRaw cfg
      (?v @ k @ (if compressed p = Some False then [] else js ''01''))"
  define hex where "hex = ?v @ k @ m @ chk"
  have lc: "length chk = 8"
    unfolding chk_def using digest by (intro length_checksumHexRaw) (simp add: cs(6))
  have lo: "lower_hex chk" unfolding chk_def by (rule lower_hex_checksumHexRaw)
  have lm: "length m = 2" "lower_hex m"
    by (simp_all add: m_def js_def lower_hex_def lower_hex_digit_def)
  have hs: "hex_string hex" "even (length hex)"
    using a ver lo lc lm by (simp_all add: hex_def lower_hex_hex_string)
  have low: "map lower_case hex = ?v @ map lower_case k @ m @ chk"
    using ver(4) lo lm by (simp add: hex_def lower_hex_lower_case)
  have e: "fst (b58c_encodePrivateKeyHex cfg p) = Inr hex"
    unfolding hex_def chk_def m_def using a cs(3) ver(5)
    by (intro encodePrivateKeyHex_ok) simp_all
  then obtain p2 where e2: "b58c_encodePrivateKeyHex cfg p = (Inr hex, p2)"
    by (cases "b58c_encodePrivateKeyHex cfg p") simp
  have kne: "k \<noteq> []" using a by auto
  have enc: "fst (b58c_encode cfg p) = encode (bs58 cfg) (hexToUint8Array hex)"
    using x a kne by (simp add: b58c_encode_def b58c_encodeHex_def e2)
  from encode_then_decode_hex [OF cs(1) B hs] obtain s where
    s: "encode (bs58 cfg) (hexToUint8Array hex) = Inr s"
    and d: "b58c_decode cfg s = b58c_decodeHex cfg (map lower_case hex)"
    by blast
  have mc: "(js ''01'' = m) = (compressed p \<noteq> Some False)"
    by (simp add: m_def js_def)
  have dh: "b58c_decodeHex cfg (?v @ map lower_case k @ m @ chk)
      = Inr (no_parts\<lparr>version := Some ?v, privateKey := Some (map lower_case k),
                      compressed := Some (js ''01'' = m), check := Some chk\<rparr>)"
    using a ver(1,2) lc lm(1) by (simp add: b58c_decodeHex_def Let_def)
  have same: "hexToUint8Array (map lower_case k) = hexToUint8Array k"
    using a by (intro hexToUint8Array_lower_case) simp_all
  show "\<exists>s r. fst (b58c_encode cfg p) = Inr s \<and> b58c_decode cfg s = Inr r \<and>
      privateKey r = Some (map lower_case k) \<and>
      hexToUint8Array (map lower_case k) = hexToUint8Array k \<and>
      compressed r = Some (compressed p \<noteq> Some False) \<and>
      version r = Some (privateKeyVersion cfg)"
    using enc s d dh same mc unfolding low by (simp add: no_parts_def)
qed

lemma hex_string_zeroes: "hex_string (replicate n 0x30)"
  by (simp add: hex_string_def hex_digit_def js_def)

lemma lower_case_zeroes: "map lower_case (replicate n 0x30) = replicate n 0x30"
  by (simp add: lower_case_def)

theorem C2_keycodec_roundtrip_witness:
  "create zero_digest None = Inr dash_mainnet \<and> 2 \<le> BASE (bs58 dash_mainnet) \<and>
   (\<forall>u. 4 \<le> length (zero_digest u)) \<and>
   length (pubKeyHashVersion dash_mainnet) = 2 \<and> length (privateKeyVersion dash_mainnet) = 2 \<and>
   lower_hex (pubKeyHashVersion dash_mainnet) \<and> lower_hex (privateKeyVersion dash_mainnet) \<and>
   pubKeyHashVersion dash_mainnet \<noteq> privateKeyVersion dash_mainnet \<and>
   (\<not> truthy (xprv sample_pkh) \<and> \<not> truthy (xpub sample_pkh) \<and>
    pubKeyHash sample_pkh = Some (replicate 40 0x30) \<and> hex_string (replicate 40 0x30) \<and>
    length (replicate 40 (0x30::jschar)) = 40 \<and> \<not> truthy (privateKey sample_pkh) \<and>
    version sample_pkh = None \<and>
    (\<exists>s r. fst (b58c_encode dash_mainnet sample_pkh) = Inr s \<and> b58c_decode dash_mainnet s = Inr r \<and>
       pubKeyHash r = Some (replicate 40 0x30) \<and> version r = Some (js ''4c''))) \<and>
   (\<not> truthy (xprv (sample_key\<lparr>compressed := Some False\<rparr>)) \<and>
    \<not> truthy (xpub (sample_key\<lparr>compressed := Some False\<rparr>)) \<and>
    privateKey (sample_key\<lparr>compressed := Some False\<rparr>) = Some (replicate 64 0x30) \<and>
    hex_string (replicate 64 0x30) \<and> length (replicate 64 (0x30::jschar)) = 64 \<and>
    \<not> truthy (pubKeyHash (sample_key\<lparr>compressed := Some False\<rparr>)) \<and>
    version (sample_key\<lparr>compressed := Some False\<rparr>) = None \<and>
    (\<exists>s r. fst (b58c_encode dash_mainnet (sample_key\<lparr>compressed := Some False\<rparr>)) = Inr s \<and>
       b58c_decode dash_mainnet s = Inr r \<and>
       privateKey r = Some (replicate 64 0x30) \<and> compressed r = Some False \<and>
       version r = Some (js ''cc'')))"
proof -
  let ?pk = "sample_key\<lparr>compressed := Some False\<rparr>"
  have B: "2 \<le> BASE (bs58 dash_mainnet)" by (simp add: dash_mainnet_def bs58_default_def)
  have dg: "4 \<le> length (zero_digest u)" for u by (simp add: zero_digest_def)
  have v: "pubKeyHashVersion dash_mainnet = js ''4c''" "privateKeyVersion dash_mainnet = js ''cc''"
    by (simp_all add: dash_mainnet_def)
  have ver: "length (pubKeyHashVersion dash_mainnet) = 2" "length (privateKeyVersion dash_mainnet) = 2"
    "lower_hex (pubKeyHashVersion dash_mainnet)" "lower_hex (privateKeyVersion dash_mainnet)"
    "pubKeyHashVersion dash_mainnet \<noteq> privateKeyVersion dash_mainnet"
    by (simp_all add: v js_def lower_hex_def lower_hex_digit_def)
  have x1: "\<not> truthy (xprv sample_pkh)" "\<not> truthy (xpub sample_pkh)"
    and x2: "\<not> truthy (xprv ?pk)" "\<not> truthy (xpub ?pk)"
    by (simp_all add: sample_pkh_def sample_key_def no_parts_def)
  have h1: "pubKeyHash sample_pkh = Some (replicate 40 0x30) \<and> hex_string (replicate 40 0x30) \<and>
      length (replicate 40 (0x30::jschar)) = 40 \<and> \<not> truthy (privateKey sample_pkh) \<and>
      (version sample_pkh = None \<or> version sample_pkh = Some (pubKeyHashVersion dash_mainnet))"
    by (simp add: sample_pkh_def no_parts_def hex_string_zeroes)
  have h2: "privateKey ?pk = Some (replicate 64 0x30) \<and> hex_string (replicate 64 0x30) \<and>
      length (replicate 64 (0x30::jschar)) = 64 \<and> \<not> truthy (pubKeyHash ?pk) \<and>
      (version ?pk = None \<or> version ?pk = Some (privateKeyVersion dash_mainnet))"
    by (simp add: sample_key_def no_parts_def hex_string_zeroes)
  have c1: "\<exists>s r. fst (b58c_encode dash_mainnet sample_pkh) = Inr s \<and>
      b58c_decode dash_mainnet s = Inr r \<and>
      pubKeyHash r = Some (map lower_case (replicate 40 0x30)) \<and>
      hexToUint8Array (map lower_case (replicate 40 0x30)) = hexToUint8Array (replicate 40 0x30) \<and>
      version r = Some (pubKeyHashVersion dash_mainnet)"
    using C2_keycodec_roundtrip [OF create_default B dg ver x1, THEN conjunct1] h1 by (rule mp)
  have c2: "\<exists>s r. fst (b58c_encode dash_mainnet ?pk) = Inr s \<and>
      b58c_decode dash_mainnet s = Inr r \<and>
      privateKey r = Some (map lower_case (replicate 64 0x30)) \<and>
      hexToUint8Array (map lower_case (replicate 64 0x30)) = hexToUint8Array (replicate 64 0x30) \<and>
      compressed r = Some (compressed ?pk \<noteq> Some False) \<and>
      version r = Some (privateKeyVersion dash_mainnet)"
    using C2_keycodec_roundtrip [OF create_default B dg ver x2, THEN conjunct2] h2 by (rule mp)
  have c1': "\<exists>s r. fst (b58c_encode dash_mainnet sample_pkh) = Inr s \<and>
      b58c_decode dash_mainnet s = Inr r \<and>
      pubKeyHash r = Some (replicate 40 0x30) \<and> version r = Some (js ''4c'')"
    using c1 unfolding lower_case_zeroes v by blast
  have cf: "compressed ?pk = Some False" by simp
  have c2': "\<exists>s r. fst (b58c_encode dash_mainnet ?pk) = Inr s \<and>
      b58c_decode dash_mainnet s = Inr r \<and>
      privateKey r = Some (replicate 64 0x30) \<and> compressed r = Some False \<and>
      version r = Some (js ''cc'')"
    using c2 unfolding lower_case_zeroes v cf by auto
  have n1: "version sample_pkh = None" "version ?pk = None"
    by (simp_all add: sample_pkh_def sample_key_def no_parts_def)
  show ?thesis
    using create_default B dg ver x1 x2 h1 h2 n1 c1' c2' by blast
qed

lemma createEncoder_unary: "createEncoder (js ''a'') = Inr unary_codec"
  by (simp add: createEncoder_def js_def unary_codec_def charAt_def Let_def)

lemma encode_unary_nonzero: "x \<noteq> 0 \<Longrightarrow> encode unary_codec (x # rest) = Inl NonZeroCarry"
  by (simp add: encode_def unary_codec_def enc_size_def floorlog_def unat_eq_0)

text \<open>
  C2 as stated fails for a codec created with a one-symbol dictionary: \<^verbatim>\<open>create\<close>
  accepts it, and \<^verbatim>\<open>encode\<close> of the pubKeyHash record of 20 zero bytes throws "Non-zero
  carry" in the radix codec.
\<close>

theorem C2_one_symbol_counterexample:
  "create zero_digest (Some unary_opts) = Inr unary_b58c \<and>
   fst (b58c_encode unary_b58c sample_pkh) = Inl NonZeroCarry"
proof -
  have a: "js ''a'' \<noteq> []" by (simp add: js_def)
  have c: "create zero_digest (Some unary_opts) = Inr unary_b58c"
    using a by (simp add: create_def unary_opts_def or_else_def createEncoder_unary unary_b58c_def)
  let ?h = "replicate 40 (0x30::jschar)"
  let ?chk = "b58c_checksumHexRaw unary_b58c (js ''4c'' @ ?h)"
  have v: "pubKeyHashVersion unary_b58c = js ''4c''" "privateKeyVersion unary_b58c = js ''cc''"
    "bs58 unary_b58c = unary_codec"
    by (simp_all add: unary_b58c_def)
  have e: "fst (b58c_encodePubKeyHashHex unary_b58c sample_pkh)
      = Inr (pubKeyHashVersion unary_b58c @ ?h
             @ b58c_checksumHexRaw unary_b58c (pubKeyHashVersion unary_b58c @ ?h))"
    by (rule encodePubKeyHashHex_ok) (simp_all add: sample_pkh_def no_parts_def v js_def)
  then obtain p2 where e2: "b58c_encodePubKeyHashHex unary_b58c sample_pkh
      = (Inr (js ''4c'' @ ?h @ ?chk), p2)"
    unfolding v by (cases "b58c_encodePubKeyHashHex unary_b58c sample_pkh") simp
  have b: "ToUint8 (parseInt16 [0x34, 0x63]) = 0x4C" by code_simp
  have hx: "hexToUint8Array (js ''4c'' @ ?h @ ?chk) = 0x4C # hexToUint8Array (?h @ ?chk)"
    by (simp add: js_def b)
  have t: "\<not> truthy (xprv sample_pkh)" "\<not> truthy (xpub sample_pkh)"
    "truthy (pubKeyHash sample_pkh)"
    by (simp_all add: sample_pkh_def no_parts_def)
  have "fst (b58c_encode unary_b58c sample_pkh)
      = encode unary_codec (hexToUint8Array (js ''4c'' @ ?h @ ?chk))"
    by (simp add: b58c_encode_def b58c_encodeHex_def e2 v t)
  also have "\<dots> = Inl NonZeroCarry" unfolding hx by (rule encode_unary_nonzero) simp
  finally show ?thesis using c by simp
qed

end
